theory Spec2Isabelle
  imports Complex_Main "HOL-Library.AList"
begin

section \<open>Text primitives used by the SQL validator\<close>

text \<open>
  A statement is a Python string. It is modelled as a \<open>string\<close>, each character standing
  for the code point of the same number, U+0000 to U+00FF. \<open>str.upper\<close> leaves this
  range for two letters (U+00B5 becomes U+039C, U+00FF becomes U+0178), so upper-cased
  text is a list of \<open>uchar\<close>: a character of the range or one of these two letters.
  \<open>lit\<close> embeds a literal of the source.

  \<open>str.strip\<close>, \<open>str.split\<close> and the regular-expression class \<open>\s\<close> share one notion of
  whitespace: U+0009 to U+000D, U+001C to U+0020, U+0085 and U+00A0. The class \<open>\w\<close> is
  the alphanumeric characters and the underscore: the ASCII letters and digits, U+00AA,
  U+00B2, U+00B3, U+00B5, U+00B9, U+00BA, U+00BC to U+00BE, and the letters U+00C0 to
  U+00FF except the two signs U+00D7 and U+00F7. U+039C and U+0178 are capital letters.
\<close>

datatype uchar = Latin1 char | U039C | U0178

definition lit :: "string \<Rightarrow> uchar list" where
  "lit s = map Latin1 s"

definition code_point :: "char \<Rightarrow> nat" where
  "code_point c = of_char c"

fun isspace :: "uchar \<Rightarrow> bool" where
  "isspace (Latin1 c) =
     (let n = code_point c
      in (9 \<le> n \<and> n \<le> 13) \<or> (28 \<le> n \<and> n \<le> 32) \<or> n = 133 \<or> n = 160)"
| "isspace U039C = False"
| "isspace U0178 = False"

fun isword :: "uchar \<Rightarrow> bool" where
  "isword (Latin1 c) =
     (let n = code_point c
      in (48 \<le> n \<and> n \<le> 57) \<or> (65 \<le> n \<and> n \<le> 90) \<or> n = 95 \<or> (97 \<le> n \<and> n \<le> 122) \<or>
         n = 170 \<or> n = 178 \<or> n = 179 \<or> n = 181 \<or> n = 185 \<or> n = 186 \<or>
         (188 \<le> n \<and> n \<le> 190) \<or> (192 \<le> n \<and> n \<le> 214) \<or> (216 \<le> n \<and> n \<le> 246) \<or>
         (248 \<le> n \<and> n \<le> 255))"
| "isword U039C = True"
| "isword U0178 = True"

text \<open>
  \<open>str.upper\<close>, character by character: \<open>a-z\<close> and the small letters U+00E0 to U+00FE
  (but not the division sign U+00F7) move down by 32, U+00DF becomes \<open>SS\<close>, U+00B5 and
  U+00FF become the two letters outside the range, every other character stays.
\<close>

definition upper_char :: "char \<Rightarrow> uchar list" where
  "upper_char c =
     (let n = code_point c
      in if 97 \<le> n \<and> n \<le> 122 then [Latin1 (char_of (n - 32))]
         else if n = 181 then [U039C]
         else if n = 223 then [Latin1 CHR ''S'', Latin1 CHR ''S'']
         else if (224 \<le> n \<and> n \<le> 246) \<or> (248 \<le> n \<and> n \<le> 254)
           then [Latin1 (char_of (n - 32))]
         else if n = 255 then [U0178]
         else [Latin1 c])"

definition upper :: "string \<Rightarrow> uchar list" where
  "upper s = concat (map upper_char s)"

definition strip :: "uchar list \<Rightarrow> uchar list" where
  "strip s = rev (dropWhile isspace (rev (dropWhile isspace s)))"

text \<open>
  \<open>str.split()\<close> without a separator: one left-to-right scan that cuts the text at runs
  of whitespace and yields no empty word. The first argument is the word being read, in
  reverse.
\<close>

fun split_scan :: "uchar list \<Rightarrow> uchar list \<Rightarrow> uchar list list" where
  "split_scan w [] = (if w = [] then [] else [rev w])"
| "split_scan w (c # cs) =
     (if isspace c then (if w = [] then split_scan [] cs else rev w # split_scan [] cs)
      else split_scan (c # w) cs)"

definition str_split :: "uchar list \<Rightarrow> uchar list list" where
  "str_split s = split_scan [] s"

text \<open>\<open>s.startswith(p)\<close> and the substring test \<open>sub in s\<close>.\<close>

definition startswith :: "uchar list \<Rightarrow> uchar list \<Rightarrow> bool" where
  "startswith s p = (take (length p) s = p)"

fun contains :: "uchar list \<Rightarrow> uchar list \<Rightarrow> bool" where
  "contains [] sub = (sub = [])"
| "contains (c # cs) sub = (startswith (c # cs) sub \<or> contains cs sub)"

subsection \<open>The regular expressions of the read-only check\<close>

text \<open>
  The seven patterns of \<open>_validate_readonly\<close> are built from four constructs only: a
  literal word, \<open>\b\<close> (a word boundary), \<open>\s+\<close> and \<open>\w+\<close>. A pattern is the list of
  its atoms. \<open>re_match r prev s\<close> says that \<open>r\<close> matches a prefix of \<open>s\<close>, where
  \<open>prev\<close> is the character just before \<open>s\<close> in the whole text (\<open>None\<close> at its start);
  every way of dividing the text among the atoms is tried, as the backtracking matcher
  does. \<open>re_search\<close> tries every start position from left to right.
\<close>

datatype re_atom = Lit "uchar list" | Boundary | Plus "uchar \<Rightarrow> bool"

definition word_at :: "uchar option \<Rightarrow> bool" where
  "word_at p = (case p of None \<Rightarrow> False | Some c \<Rightarrow> isword c)"

definition next_char :: "uchar list \<Rightarrow> uchar option" where
  "next_char s = (case s of [] \<Rightarrow> None | c # _ \<Rightarrow> Some c)"

definition last_char :: "uchar option \<Rightarrow> uchar list \<Rightarrow> uchar option" where
  "last_char prev s = (if s = [] then prev else Some (last s))"

fun re_match :: "re_atom list \<Rightarrow> uchar option \<Rightarrow> uchar list \<Rightarrow> bool" where
  "re_match [] prev s = True"
| "re_match (Lit l # r) prev s =
     (startswith s l \<and> re_match r (last_char prev l) (drop (length l) s))"
| "re_match (Boundary # r) prev s =
     (word_at prev \<noteq> word_at (next_char s) \<and> re_match r prev s)"
| "re_match (Plus P # r) prev [] = False"
| "re_match (Plus P # r) prev (c # cs) =
     (P c \<and> (re_match r (Some c) cs \<or> re_match (Plus P # r) (Some c) cs))"

fun re_search_from :: "re_atom list \<Rightarrow> uchar option \<Rightarrow> uchar list \<Rightarrow> bool" where
  "re_search_from r prev [] = re_match r prev []"
| "re_search_from r prev (c # cs) = (re_match r prev (c # cs) \<or> re_search_from r (Some c) cs)"

definition re_search :: "re_atom list \<Rightarrow> uchar list \<Rightarrow> bool" where
  "re_search r s = re_search_from r None s"

section \<open>SQLValidator\<close>

datatype SecurityMode = READONLY | LIMITED_WRITE | FULL_ACCESS

definition READONLY_OPERATIONS :: "uchar list set" where
  "READONLY_OPERATIONS =
     {lit ''SELECT'', lit ''WITH'', lit ''SHOW'', lit ''DESCRIBE'', lit ''EXPLAIN'',
      lit ''ANALYZE''}"

definition WRITE_OPERATIONS :: "uchar list set" where
  "WRITE_OPERATIONS = {lit ''INSERT'', lit ''UPDATE''}"

definition DANGEROUS_OPERATIONS :: "uchar list set" where
  "DANGEROUS_OPERATIONS =
     {lit ''DELETE'', lit ''DROP'', lit ''CREATE'', lit ''ALTER'', lit ''TRUNCATE'',
      lit ''GRANT'', lit ''REVOKE''}"

definition extract_first_keyword :: "uchar list \<Rightarrow> uchar list" where
  "extract_first_keyword sql_upper =
     (case str_split sql_upper of [] \<Rightarrow> [] | w # _ \<Rightarrow> w)"

definition dangerous_patterns :: "re_atom list list" where
  "dangerous_patterns =
     [[Boundary, Lit (lit ''DROP''), Plus isspace, Lit (lit ''TABLE''), Boundary],
      [Boundary, Lit (lit ''TRUNCATE''), Plus isspace, Lit (lit ''TABLE''), Boundary],
      [Boundary, Lit (lit ''DELETE''), Plus isspace, Lit (lit ''FROM''), Boundary],
      [Boundary, Lit (lit ''INSERT''), Plus isspace, Lit (lit ''INTO''), Boundary],
      [Boundary, Lit (lit ''UPDATE''), Plus isspace, Plus isword, Plus isspace,
       Lit (lit ''SET''), Boundary],
      [Boundary, Lit (lit ''CREATE''), Plus isspace, Lit (lit ''TABLE''), Boundary],
      [Boundary, Lit (lit ''ALTER''), Plus isspace, Lit (lit ''TABLE''), Boundary]]"

definition validate_readonly :: "uchar list \<Rightarrow> uchar list \<Rightarrow> bool" where
  "validate_readonly first_keyword sql_upper =
     (if first_keyword \<notin> READONLY_OPERATIONS then False
      else if first_keyword = lit ''SELECT''
        then \<not> list_ex (\<lambda>pattern. re_search pattern sql_upper) dangerous_patterns
        else \<not> (\<exists>forbidden \<in> WRITE_OPERATIONS \<union> DANGEROUS_OPERATIONS.
                   contains sql_upper forbidden))"

definition validate_limited_write :: "uchar list \<Rightarrow> uchar list \<Rightarrow> bool" where
  "validate_limited_write first_keyword sql_upper =
     (if first_keyword \<notin> READONLY_OPERATIONS \<union> WRITE_OPERATIONS then False
      else \<not> (\<exists>dangerous \<in> DANGEROUS_OPERATIONS. contains sql_upper dangerous))"

definition validate_sql :: "string \<Rightarrow> SecurityMode \<Rightarrow> bool" where
  "validate_sql sql security_mode =
     (let sql_upper = strip (upper sql);
          first_keyword = extract_first_keyword sql_upper
      in case security_mode of
           READONLY \<Rightarrow> validate_readonly first_keyword sql_upper
         | LIMITED_WRITE \<Rightarrow> validate_limited_write first_keyword sql_upper
         | FULL_ACCESS \<Rightarrow> True)"

text \<open>
  \<open>get_error_message\<close> formats one of six fixed texts, five of them ending in the leading
  keyword. The texts are kept apart by a constructor each: in read-only mode "write
  operation forbidden", "dangerous operation forbidden" and "unsupported operation"; in
  limited-write mode "dangerous operation forbidden" and "unsupported operation"; and the
  text without mode or keyword that is returned for any other mode.
\<close>

datatype policy_message =
    Readonly_write_forbidden "uchar list"
  | Readonly_dangerous_forbidden "uchar list"
  | Readonly_unsupported "uchar list"
  | Limited_write_dangerous_forbidden "uchar list"
  | Limited_write_unsupported "uchar list"
  | Forbidden_by_policy

definition get_error_message :: "string \<Rightarrow> SecurityMode \<Rightarrow> policy_message" where
  "get_error_message sql security_mode =
     (let sql_upper = strip (upper sql);
          first_keyword = extract_first_keyword sql_upper
      in case security_mode of
           READONLY \<Rightarrow>
             (if first_keyword \<in> WRITE_OPERATIONS then Readonly_write_forbidden first_keyword
              else if first_keyword \<in> DANGEROUS_OPERATIONS
                then Readonly_dangerous_forbidden first_keyword
                else Readonly_unsupported first_keyword)
         | LIMITED_WRITE \<Rightarrow>
             (if first_keyword \<in> DANGEROUS_OPERATIONS
                then Limited_write_dangerous_forbidden first_keyword
                else Limited_write_unsupported first_keyword)
         | FULL_ACCESS \<Rightarrow> Forbidden_by_policy)"

text \<open>The access tier and the keyword that a message text names.\<close>

fun message_mode :: "policy_message \<Rightarrow> SecurityMode option" where
  "message_mode (Readonly_write_forbidden k) = Some READONLY"
| "message_mode (Readonly_dangerous_forbidden k) = Some READONLY"
| "message_mode (Readonly_unsupported k) = Some READONLY"
| "message_mode (Limited_write_dangerous_forbidden k) = Some LIMITED_WRITE"
| "message_mode (Limited_write_unsupported k) = Some LIMITED_WRITE"
| "message_mode Forbidden_by_policy = None"

fun message_keyword :: "policy_message \<Rightarrow> uchar list option" where
  "message_keyword (Readonly_write_forbidden k) = Some k"
| "message_keyword (Readonly_dangerous_forbidden k) = Some k"
| "message_keyword (Readonly_unsupported k) = Some k"
| "message_keyword (Limited_write_dangerous_forbidden k) = Some k"
| "message_keyword (Limited_write_unsupported k) = Some k"
| "message_keyword Forbidden_by_policy = None"

section \<open>QueryCache\<close>

text \<open>
  Both dictionaries of the cache are Python dictionaries, which iterate in insertion
  order: they are association lists with distinct keys, \<open>AList.update\<close> replacing the
  value of a present key in place and appending an absent one, \<open>AList.delete\<close> removing
  a key. The stored dictionary of a key (\<open>data\<close>, \<open>timestamp\<close>, \<open>sql\<close>, \<open>schema\<close>) is a
  record. The payload type \<open>'d\<close> is left open: a value where only the contents matter, a
  reference into a store where the identity of the stored object does.

  \<open>hashlib.md5(...).hexdigest()\<close> is a library function; it is the parameter \<open>md5\<close> of
  every operation that derives a key. The clock \<open>time.time()\<close> is read twice by \<open>get\<close>
  (expiry check, then access time) and twice by \<open>set\<close> (creation time, then access time);
  each reading is a parameter. A reading is a double-precision number, which is a real
  number; readings are compared exactly, and so is a reading with the integer \<open>ttl\<close>,
  but their difference is rounded. The subtraction of double precision is the parameter
  \<open>fsub\<close> of \<open>get\<close>.
\<close>

record 'd cache_entry =
  entry_data :: 'd
  entry_timestamp :: real
  entry_sql :: string
  entry_schema :: "string option"

record 'd QueryCache =
  cache :: "(string \<times> 'd cache_entry) list"
  max_size :: int
  ttl :: int
  access_times :: "(string \<times> real) list"

definition QueryCache_init :: "int \<Rightarrow> int \<Rightarrow> 'd QueryCache" where
  "QueryCache_init size_limit lifetime =
     \<lparr>cache = [], max_size = size_limit, ttl = lifetime, access_times = []\<rparr>"

definition generate_key :: "(string \<Rightarrow> string) \<Rightarrow> string \<Rightarrow> string option \<Rightarrow> string" where
  "generate_key md5 sql schema =
     md5 (sql @ ''_'' @ (case schema of None \<Rightarrow> [] | Some s \<Rightarrow> s))"

definition remove :: "'d QueryCache \<Rightarrow> string \<Rightarrow> 'd QueryCache" where
  "remove qc key =
     qc\<lparr>cache := AList.delete key (cache qc),
        access_times := AList.delete key (access_times qc)\<rparr>"

text \<open>
  \<open>min(keys, key=...)\<close> keeps the first item and replaces it only by a strictly smaller
  one, so among equal access times the first in iteration order wins.
\<close>

fun min_by_time :: "string \<times> real \<Rightarrow> (string \<times> real) list \<Rightarrow> string \<times> real" where
  "min_by_time best [] = best"
| "min_by_time best (kt # kts) = min_by_time (if snd kt < snd best then kt else best) kts"

definition oldest_key :: "'d QueryCache \<Rightarrow> string option" where
  "oldest_key qc =
     (case access_times qc of [] \<Rightarrow> None | kt # kts \<Rightarrow> Some (fst (min_by_time kt kts)))"

definition evict_oldest :: "'d QueryCache \<Rightarrow> 'd QueryCache" where
  "evict_oldest qc = (case oldest_key qc of None \<Rightarrow> qc | Some k \<Rightarrow> remove qc k)"

definition cache_get ::
  "(string \<Rightarrow> string) \<Rightarrow> (real \<Rightarrow> real \<Rightarrow> real) \<Rightarrow> 'd QueryCache \<Rightarrow> string
     \<Rightarrow> string option \<Rightarrow> real \<Rightarrow> real \<Rightarrow> 'd option \<times> 'd QueryCache" where
  "cache_get md5 fsub qc sql schema t_check t_access =
     (let key = generate_key md5 sql schema
      in case map_of (cache qc) key of
           None \<Rightarrow> (None, qc)
         | Some e \<Rightarrow>
             if fsub t_check (entry_timestamp e) > real_of_int (ttl qc)
               then (None, remove qc key)
               else (Some (entry_data e),
                     qc\<lparr>access_times := AList.update key t_access (access_times qc)\<rparr>))"

definition cache_set ::
  "(string \<Rightarrow> string) \<Rightarrow> 'd QueryCache \<Rightarrow> string \<Rightarrow> 'd \<Rightarrow> string option \<Rightarrow> real \<Rightarrow> real
     \<Rightarrow> 'd QueryCache" where
  "cache_set md5 qc sql payload schema t_created t_access =
     (let key = generate_key md5 sql schema;
          qc1 = (if int (length (cache qc)) \<ge> max_size qc then evict_oldest qc else qc)
      in qc1\<lparr>cache := AList.update key
                  \<lparr>entry_data = payload, entry_timestamp = t_created,
                   entry_sql = sql, entry_schema = schema\<rparr> (cache qc1),
              access_times := AList.update key t_access (access_times qc1)\<rparr>)"

definition clear :: "'d QueryCache \<Rightarrow> 'd QueryCache" where
  "clear qc = qc\<lparr>cache := [], access_times := []\<rparr>"

record cache_stats =
  cache_size :: nat
  stats_max_size :: int
  stats_ttl :: int
  entries :: "string list"

definition get_stats :: "'d QueryCache \<Rightarrow> cache_stats" where
  "get_stats qc =
     \<lparr>cache_size = length (cache qc), stats_max_size = max_size qc, stats_ttl = ttl qc,
      entries = map fst (cache qc)\<rparr>"

subsection \<open>Sequences of public operations\<close>

datatype 'd cache_op =
    Get string "string option" real real
  | Set string 'd "string option" real real
  | Clear
  | Stats

fun apply_op ::
  "(string \<Rightarrow> string) \<Rightarrow> (real \<Rightarrow> real \<Rightarrow> real) \<Rightarrow> 'd QueryCache \<Rightarrow> 'd cache_op
     \<Rightarrow> 'd QueryCache" where
  "apply_op md5 fsub qc (Get sql schema t_check t_access) =
     snd (cache_get md5 fsub qc sql schema t_check t_access)"
| "apply_op md5 fsub qc (Set sql payload schema t_created t_access) =
     cache_set md5 qc sql payload schema t_created t_access"
| "apply_op md5 fsub qc Clear = clear qc"
| "apply_op md5 fsub qc Stats = qc"

definition run_ops ::
  "(string \<Rightarrow> string) \<Rightarrow> (real \<Rightarrow> real \<Rightarrow> real) \<Rightarrow> 'd QueryCache \<Rightarrow> 'd cache_op list
     \<Rightarrow> 'd QueryCache" where
  "run_ops md5 fsub qc ops = foldl (apply_op md5 fsub) qc ops"

subsection \<open>Payloads held by reference\<close>

text \<open>
  A Python list is an object: \<open>set\<close> stores the reference it is given and \<open>get\<close> returns
  whatever the entry holds. With \<open>'d\<close> a reference, the store maps references to the
  rows of the list they denote, and \<open>list_append\<close> is the caller's \<open>rows.append(x)\<close>.
\<close>

type_synonym ref = nat

type_synonym 'r store = "ref \<Rightarrow> 'r list option"

definition list_append :: "'r store \<Rightarrow> ref \<Rightarrow> 'r \<Rightarrow> 'r store" where
  "list_append h a x = (case h a of None \<Rightarrow> h | Some rows \<Rightarrow> h(a := Some (rows @ [x])))"

definition cached_rows :: "'r store \<Rightarrow> ref QueryCache \<Rightarrow> string \<Rightarrow> 'r list option" where
  "cached_rows h qc key =
     (case map_of (cache qc) key of None \<Rightarrow> None | Some e \<Rightarrow> h (entry_data e))"

section \<open>DamengDatabase.execute\_query\<close>

text \<open>
  The database is outside the program. One call of \<open>execute_query\<close> sees one outcome of
  connecting, executing and fetching: an error raised on the way, or the fetched rows
  (as dictionaries, decimals already converted) together with the cursor's row count.
  The events record the order in which the cache and the database are reached.
\<close>

datatype 'r db_outcome = DbError | DbOk "'r list" int

datatype exec_error = ValueError policy_message | DatabaseError

datatype 'r query_result = Rows "'r list" | Affected_rows int

datatype event = CacheGet | DbExecute | CacheSet

record config =
  cfg_security_mode :: SecurityMode
  cfg_max_result_rows :: int

definition query_prefixes :: "uchar list list" where
  "query_prefixes =
     [lit ''SELECT'', lit ''WITH'', lit ''SHOW'', lit ''DESCRIBE'', lit ''EXPLAIN'']"

definition is_query :: "string \<Rightarrow> bool" where
  "is_query sql = list_ex (startswith (strip (upper sql))) query_prefixes"

text \<open>\<open>rows[:m]\<close> when there are more than \<open>m\<close> rows; a negative \<open>m\<close> counts from the end.\<close>

definition truncate_rows :: "int \<Rightarrow> 'r list \<Rightarrow> 'r list" where
  "truncate_rows m rows =
     (if int (length rows) > m
        then (if 0 \<le> m then take (nat m) rows else take (nat (int (length rows) + m)) rows)
        else rows)"

definition execute_query ::
  "config \<Rightarrow> (string \<Rightarrow> string) \<Rightarrow> (real \<Rightarrow> real \<Rightarrow> real) \<Rightarrow> 'r db_outcome
     \<Rightarrow> real \<times> real \<Rightarrow> real \<times> real \<Rightarrow> 'r list QueryCache \<Rightarrow> string \<Rightarrow> bool
     \<Rightarrow> (exec_error + 'r query_result) \<times> 'r list QueryCache \<times> event list" where
  "execute_query cfg md5 fsub db t_get t_set qc sql use_cache =
     (if \<not> validate_sql sql (cfg_security_mode cfg)
        then (Inl (ValueError (get_error_message sql (cfg_security_mode cfg))), qc, [])
      else
        let (cached_result, qc1, ev1) =
              (if use_cache \<and> is_query sql
                 then (let (r, q) = cache_get md5 fsub qc sql None (fst t_get) (snd t_get)
                       in (r, q, [CacheGet]))
                 else (None, qc, []))
        in case cached_result of
             Some rows \<Rightarrow> (Inr (Rows rows), qc1, ev1)
           | None \<Rightarrow>
               (case db of
                  DbError \<Rightarrow> (Inl DatabaseError, qc1, ev1 @ [DbExecute])
                | DbOk fetched rowcount \<Rightarrow>
                    if is_query sql
                      then (let result_dicts = truncate_rows (cfg_max_result_rows cfg) fetched
                            in if use_cache
                                 then (Inr (Rows result_dicts),
                                       cache_set md5 qc1 sql result_dicts None (fst t_set) (snd t_set),
                                       ev1 @ [DbExecute, CacheSet])
                                 else (Inr (Rows result_dicts), qc1, ev1 @ [DbExecute]))
                      else (Inr (Affected_rows rowcount), qc1, ev1 @ [DbExecute])))"

section \<open>The specification's wording\<close>

text \<open>
  The glossary's keyword sets, the leading keyword (the first whitespace-delimited token),
  a keyword occurring anywhere in a text, and a clause occurring in it: its words as
  whole words, in order, separated by one or more whitespace characters.
\<close>

definition Read_set :: "uchar list set" where
  "Read_set =
     {lit ''SELECT'', lit ''WITH'', lit ''SHOW'', lit ''DESCRIBE'', lit ''EXPLAIN'',
      lit ''ANALYZE''}"

definition Write_set :: "uchar list set" where
  "Write_set = {lit ''INSERT'', lit ''UPDATE''}"

definition Dangerous_set :: "uchar list set" where
  "Dangerous_set =
     {lit ''DELETE'', lit ''DROP'', lit ''CREATE'', lit ''ALTER'', lit ''TRUNCATE'',
      lit ''GRANT'', lit ''REVOKE''}"

definition normalized :: "string \<Rightarrow> uchar list" where
  "normalized sql = strip (upper sql)"

definition leading_keyword :: "uchar list \<Rightarrow> uchar list" where
  "leading_keyword text = takeWhile (\<lambda>c. \<not> isspace c) (dropWhile isspace text)"

definition occurs :: "uchar list \<Rightarrow> uchar list \<Rightarrow> bool" where
  "occurs sub text = (\<exists>pre post. text = pre @ sub @ post)"

definition clause_occurs :: "uchar list \<Rightarrow> uchar list \<Rightarrow> uchar list \<Rightarrow> bool" where
  "clause_occurs w1 w2 text =
     (\<exists>pre ws post. text = pre @ w1 @ ws @ w2 @ post \<and>
        ws \<noteq> [] \<and> list_all isspace ws \<and>
        (pre = [] \<or> \<not> isword (last pre)) \<and> (post = [] \<or> \<not> isword (hd post)))"

definition update_clause_occurs :: "uchar list \<Rightarrow> bool" where
  "update_clause_occurs text =
     (\<exists>pre ws1 w ws2 post.
        text = pre @ lit ''UPDATE'' @ ws1 @ w @ ws2 @ lit ''SET'' @ post \<and>
        ws1 \<noteq> [] \<and> list_all isspace ws1 \<and> w \<noteq> [] \<and> list_all isword w \<and>
        ws2 \<noteq> [] \<and> list_all isspace ws2 \<and>
        (pre = [] \<or> \<not> isword (last pre)) \<and> (post = [] \<or> \<not> isword (hd post)))"

definition dangerous_clause_occurs :: "uchar list \<Rightarrow> bool" where
  "dangerous_clause_occurs text =
     (clause_occurs (lit ''DROP'') (lit ''TABLE'') text \<or>
      clause_occurs (lit ''TRUNCATE'') (lit ''TABLE'') text \<or>
      clause_occurs (lit ''DELETE'') (lit ''FROM'') text \<or>
      clause_occurs (lit ''INSERT'') (lit ''INTO'') text \<or>
      update_clause_occurs text \<or>
      clause_occurs (lit ''CREATE'') (lit ''TABLE'') text \<or>
      clause_occurs (lit ''ALTER'') (lit ''TABLE'') text)"

definition readonly_accepts :: "string \<Rightarrow> bool" where
  "readonly_accepts sql =
     (leading_keyword (normalized sql) \<in> Read_set \<and>
      (if leading_keyword (normalized sql) = lit ''SELECT''
         then \<not> dangerous_clause_occurs (normalized sql)
         else \<not> (\<exists>k \<in> Write_set \<union> Dangerous_set. occurs k (normalized sql))))"

definition limited_write_accepts :: "string \<Rightarrow> bool" where
  "limited_write_accepts sql =
     (leading_keyword (normalized sql) \<in> Read_set \<union> Write_set \<and>
      \<not> (\<exists>k \<in> Dangerous_set. occurs k (normalized sql)))"

text \<open>
  The text that is hashed into the cache key: the statement, an underscore, and the
  namespace if there is a non-empty one.
\<close>

definition key_text :: "string \<Rightarrow> string option \<Rightarrow> string" where
  "key_text sql namespace =
     sql @ ''_'' @ (case namespace of None \<Rightarrow> [] | Some n \<Rightarrow> if n \<noteq> [] then n else [])"

text \<open>
  The cache invariant of the data model: no more entries than the capacity, and every
  key with an access time has an entry.
\<close>

definition cache_invariant :: "'d QueryCache \<Rightarrow> bool" where
  "cache_invariant qc =
     (int (length (cache qc)) \<le> max_size qc \<and>
      set (map fst (access_times qc)) \<subseteq> set (map fst (cache qc)))"

text \<open>
  What every reachable cache satisfies besides: the two dictionaries hold the same keys in
  the same order, each once.
\<close>

definition cache_wf :: "'d QueryCache \<Rightarrow> bool" where
  "cache_wf qc =
     (map fst (access_times qc) = map fst (cache qc) \<and> distinct (map fst (cache qc)))"

text \<open>
  One insertion of the capacity scenario: the arguments of a \<open>set\<close> call and its two
  clock readings; the key it addresses and the access time it records.
\<close>

type_synonym 'd insertion = "string \<times> 'd \<times> string option \<times> real \<times> real"

fun insertion_op :: "'d insertion \<Rightarrow> 'd cache_op" where
  "insertion_op (sql, payload, schema, t_created, t_access) =
     Set sql payload schema t_created t_access"

fun insertion_key :: "(string \<Rightarrow> string) \<Rightarrow> 'd insertion \<Rightarrow> string" where
  "insertion_key md5 (sql, payload, schema, t_created, t_access) = generate_key md5 sql schema"

fun insertion_time :: "'d insertion \<Rightarrow> real" where
  "insertion_time (sql, payload, schema, t_created, t_access) = t_access"

section \<open>Properties\<close>

subsection \<open>Substrings and the regular expressions, declaratively\<close>

lemma startswith_iff: "startswith s p \<longleftrightarrow> (\<exists>r. s = p @ r)"
  unfolding startswith_def
  by (metis append_eq_conv_conj append_take_drop_id)

lemma contains_iff: "contains s sub \<longleftrightarrow> occurs sub s"
proof (induction s)
  case Nil
  then show ?case by (auto simp: occurs_def)
next
  case (Cons c cs)
  show ?case
  proof
    assume "contains (c # cs) sub"
    then consider "startswith (c # cs) sub" | "contains cs sub" by auto
    then show "occurs sub (c # cs)"
    proof cases
      case 1
      then obtain r where "c # cs = sub @ r" using startswith_iff by blast
      then have "c # cs = [] @ sub @ r" by simp
      then show ?thesis unfolding occurs_def by blast
    next
      case 2
      then obtain pre post where "cs = pre @ sub @ post" using Cons.IH occurs_def by auto
      then have "c # cs = (c # pre) @ sub @ post" by simp
      then show ?thesis unfolding occurs_def by blast
    qed
  next
    assume "occurs sub (c # cs)"
    then obtain pre post where e: "c # cs = pre @ sub @ post" unfolding occurs_def by blast
    show "contains (c # cs) sub"
    proof (cases pre)
      case Nil
      with e have "startswith (c # cs) sub" using startswith_iff by auto
      then show ?thesis by simp
    next
      case (Cons p ps)
      with e have "cs = ps @ sub @ post" by simp
      then have "occurs sub cs" unfolding occurs_def by blast
      then show ?thesis using Cons.IH by simp
    qed
  qed
qed

lemma re_match_Lit:
  "re_match (Lit l # r) prev s \<longleftrightarrow> (\<exists>rest. s = l @ rest \<and> re_match r (last_char prev l) rest)"
  by (auto simp: startswith_iff)

lemma re_match_Plus:
  "re_match (Plus P # r) prev s \<longleftrightarrow>
     (\<exists>ws rest. s = ws @ rest \<and> ws \<noteq> [] \<and> list_all P ws \<and> re_match r (Some (last ws)) rest)"
proof (induction s arbitrary: prev)
  case Nil
  then show ?case by simp
next
  case (Cons c cs)
  show ?case
  proof
    assume "re_match (Plus P # r) prev (c # cs)"
    then have pc: "P c" and d: "re_match r (Some c) cs \<or> re_match (Plus P # r) (Some c) cs"
      by auto
    from d show "\<exists>ws rest. c # cs = ws @ rest \<and> ws \<noteq> [] \<and> list_all P ws \<and>
        re_match r (Some (last ws)) rest"
    proof
      assume "re_match r (Some c) cs"
      then have "c # cs = [c] @ cs \<and> [c] \<noteq> [] \<and> list_all P [c] \<and> re_match r (Some (last [c])) cs"
        using pc by simp
      then show ?thesis by blast
    next
      assume "re_match (Plus P # r) (Some c) cs"
      then obtain ws rest where h: "cs = ws @ rest" "ws \<noteq> []" "list_all P ws"
        "re_match r (Some (last ws)) rest" using Cons.IH by blast
      then have "c # cs = (c # ws) @ rest \<and> c # ws \<noteq> [] \<and> list_all P (c # ws) \<and>
          re_match r (Some (last (c # ws))) rest"
        using pc by simp
      then show ?thesis by blast
    qed
  next
    assume "\<exists>ws rest. c # cs = ws @ rest \<and> ws \<noteq> [] \<and> list_all P ws \<and>
        re_match r (Some (last ws)) rest"
    then obtain ws rest where h: "c # cs = ws @ rest" "ws \<noteq> []" "list_all P ws"
        "re_match r (Some (last ws)) rest" by blast
    then obtain ws' where w: "ws = c # ws'" by (cases ws) auto
    show "re_match (Plus P # r) prev (c # cs)"
    proof (cases "ws' = []")
      case True
      with h w show ?thesis by simp
    next
      case False
      with h w have "cs = ws' @ rest \<and> ws' \<noteq> [] \<and> list_all P ws' \<and>
          re_match r (Some (last ws')) rest" by simp
      then have "re_match (Plus P # r) (Some c) cs" using Cons.IH by blast
      with h w show ?thesis by simp
    qed
  qed
qed

lemma re_search_from_iff:
  "re_search_from r prev s \<longleftrightarrow>
     (\<exists>pre rest. s = pre @ rest \<and> re_match r (last_char prev pre) rest)"
proof (induction s arbitrary: prev)
  case Nil
  then show ?case by (simp add: last_char_def)
next
  case (Cons c cs)
  show ?case
  proof
    assume "re_search_from r prev (c # cs)"
    then consider "re_match r prev (c # cs)" | "re_search_from r (Some c) cs" by auto
    then show "\<exists>pre rest. c # cs = pre @ rest \<and> re_match r (last_char prev pre) rest"
    proof cases
      case 1
      then have "c # cs = [] @ (c # cs) \<and> re_match r (last_char prev []) (c # cs)"
        by (simp add: last_char_def)
      then show ?thesis by blast
    next
      case 2
      then obtain pre rest where h: "cs = pre @ rest" "re_match r (last_char (Some c) pre) rest"
        using Cons.IH by blast
      then have "c # cs = (c # pre) @ rest \<and> re_match r (last_char prev (c # pre)) rest"
        by (cases "pre = []") (auto simp: last_char_def)
      then show ?thesis by blast
    qed
  next
    assume "\<exists>pre rest. c # cs = pre @ rest \<and> re_match r (last_char prev pre) rest"
    then obtain pre rest where h: "c # cs = pre @ rest" "re_match r (last_char prev pre) rest"
      by blast
    show "re_search_from r prev (c # cs)"
    proof (cases pre)
      case Nil
      with h have "re_match r prev (c # cs)" by (simp add: last_char_def)
      then show ?thesis by simp
    next
      case (Cons p ps)
      with h have "cs = ps @ rest \<and> re_match r (last_char (Some c) ps) rest"
        by (auto simp: last_char_def)
      then have "re_search_from r (Some c) cs" using Cons.IH by blast
      then show ?thesis by simp
    qed
  qed
qed

lemma word_at_before: "\<not> word_at (last_char None pre) \<longleftrightarrow> (pre = [] \<or> \<not> isword (last pre))"
  by (simp add: word_at_def last_char_def)

lemma word_at_after: "\<not> word_at (next_char post) \<longleftrightarrow> (post = [] \<or> \<not> isword (hd post))"
  by (cases post) (simp_all add: word_at_def next_char_def)

lemma re_match_clause:
  assumes w1: "w1 \<noteq> []" "isword (hd w1)" and w2: "w2 \<noteq> []" "isword (last w2)"
  shows "re_match [Boundary, Lit w1, Plus isspace, Lit w2, Boundary] prev rest \<longleftrightarrow>
     (\<not> word_at prev \<and>
        (\<exists>ws post. rest = w1 @ ws @ w2 @ post \<and> ws \<noteq> [] \<and> list_all isspace ws \<and>
           \<not> word_at (next_char post)))"
proof -
  have n1: "\<And>x. word_at (next_char (w1 @ x))"
    using w1 by (cases w1) (simp_all add: word_at_def next_char_def)
  have l2: "\<And>p. word_at (last_char p w2)"
    using w2 by (simp add: word_at_def last_char_def)
  show ?thesis
    by (simp only: re_match.simps(3) re_match_Lit re_match_Plus re_match.simps(1))
       (auto simp: n1 l2)
qed

lemma re_search_clause:
  assumes w1: "w1 \<noteq> []" "isword (hd w1)" and w2: "w2 \<noteq> []" "isword (last w2)"
  shows "re_search [Boundary, Lit w1, Plus isspace, Lit w2, Boundary] s = clause_occurs w1 w2 s"
  unfolding re_search_def re_search_from_iff re_match_clause [OF assms] clause_occurs_def
    word_at_before word_at_after
  by blast

lemma re_match_update:
  "re_match [Boundary, Lit (lit ''UPDATE''), Plus isspace, Plus isword, Plus isspace,
       Lit (lit ''SET''), Boundary] prev rest \<longleftrightarrow>
     (\<not> word_at prev \<and>
        (\<exists>ws1 w ws2 post. rest = lit ''UPDATE'' @ ws1 @ w @ ws2 @ lit ''SET'' @ post \<and>
           ws1 \<noteq> [] \<and> list_all isspace ws1 \<and> w \<noteq> [] \<and> list_all isword w \<and>
           ws2 \<noteq> [] \<and> list_all isspace ws2 \<and> \<not> word_at (next_char post)))"
proof -
  have u: "lit ''UPDATE'' \<noteq> []" "isword (hd (lit ''UPDATE''))" by code_simp+
  have s: "lit ''SET'' \<noteq> []" "isword (last (lit ''SET''))" by code_simp+
  have n1: "\<And>x. word_at (next_char (lit ''UPDATE'' @ x))"
    using u by (cases "lit ''UPDATE''") (simp_all add: word_at_def next_char_def)
  have l2: "\<And>p. word_at (last_char p (lit ''SET''))"
    using s by (simp add: word_at_def last_char_def)
  have a: "\<And>p x. re_match [Lit (lit ''SET''), Boundary] p x \<longleftrightarrow>
      (\<exists>post. x = lit ''SET'' @ post \<and> \<not> word_at (next_char post))"
    by (simp only: re_match_Lit re_match.simps(3) re_match.simps(1) l2) simp
  have b: "\<And>p x. re_match [Plus isspace, Lit (lit ''SET''), Boundary] p x \<longleftrightarrow>
      (\<exists>ws2 post. x = ws2 @ lit ''SET'' @ post \<and> ws2 \<noteq> [] \<and> list_all isspace ws2 \<and>
         \<not> word_at (next_char post))"
    by (subst re_match_Plus) (unfold a, blast)
  have c: "\<And>p x. re_match [Plus isword, Plus isspace, Lit (lit ''SET''), Boundary] p x \<longleftrightarrow>
      (\<exists>w ws2 post. x = w @ ws2 @ lit ''SET'' @ post \<and> w \<noteq> [] \<and> list_all isword w \<and>
         ws2 \<noteq> [] \<and> list_all isspace ws2 \<and> \<not> word_at (next_char post))"
    by (subst re_match_Plus) (unfold b, blast)
  have d: "\<And>p x. re_match [Plus isspace, Plus isword, Plus isspace, Lit (lit ''SET''),
        Boundary] p x \<longleftrightarrow>
      (\<exists>ws1 w ws2 post. x = ws1 @ w @ ws2 @ lit ''SET'' @ post \<and>
         ws1 \<noteq> [] \<and> list_all isspace ws1 \<and> w \<noteq> [] \<and> list_all isword w \<and>
         ws2 \<noteq> [] \<and> list_all isspace ws2 \<and> \<not> word_at (next_char post))"
    by (subst re_match_Plus) (unfold c, blast)
  have e: "\<And>p x. re_match [Lit (lit ''UPDATE''), Plus isspace, Plus isword, Plus isspace,
        Lit (lit ''SET''), Boundary] p x \<longleftrightarrow>
      (\<exists>ws1 w ws2 post. x = lit ''UPDATE'' @ ws1 @ w @ ws2 @ lit ''SET'' @ post \<and>
         ws1 \<noteq> [] \<and> list_all isspace ws1 \<and> w \<noteq> [] \<and> list_all isword w \<and>
         ws2 \<noteq> [] \<and> list_all isspace ws2 \<and> \<not> word_at (next_char post))"
    by (subst re_match_Lit) (unfold d, blast)
  show ?thesis
    unfolding re_match.simps(3) e using n1 by blast
qed

lemma re_search_update:
  "re_search [Boundary, Lit (lit ''UPDATE''), Plus isspace, Plus isword, Plus isspace,
       Lit (lit ''SET''), Boundary] s = update_clause_occurs s"
  unfolding re_search_def re_search_from_iff re_match_update update_clause_occurs_def
    word_at_before word_at_after
  by blast


subsection \<open>The leading keyword\<close>

lemma split_scan_head:
  "(case split_scan w s of [] \<Rightarrow> [] | x # _ \<Rightarrow> x) =
     (if w = [] then takeWhile (\<lambda>c. \<not> isspace c) (dropWhile isspace s)
      else rev w @ takeWhile (\<lambda>c. \<not> isspace c) s)"
  by (induction s arbitrary: w) auto

lemma extract_first_keyword_eq: "extract_first_keyword s = leading_keyword s"
  unfolding extract_first_keyword_def str_split_def leading_keyword_def
  using split_scan_head [of "[]" s] by simp

lemma upper_char_space: "isspace (Latin1 c) \<Longrightarrow> upper_char c = [Latin1 c]"
  by (auto simp: upper_char_def Let_def)

lemma blank_normalized:
  assumes "list_all (\<lambda>c. isspace (Latin1 c)) sql"
  shows "strip (upper sql) = []"
proof -
  have "\<forall>u \<in> set (upper sql). isspace u"
    using assms by (auto simp: upper_def list_all_iff upper_char_space)
  then have d: "dropWhile isspace (upper sql) = []"
    by (rule dropWhile_eq_Nil_conv [THEN iffD2])
  show ?thesis unfolding strip_def d by simp
qed

subsection \<open>The validator\<close>

lemma dangerous_patterns_iff:
  "list_ex (\<lambda>pattern. re_search pattern text) dangerous_patterns = dangerous_clause_occurs text"
proof -
  have c1: "re_search [Boundary, Lit (lit ''DROP''), Plus isspace, Lit (lit ''TABLE''), Boundary]
      text = clause_occurs (lit ''DROP'') (lit ''TABLE'') text"
    by (rule re_search_clause) code_simp+
  have c2: "re_search [Boundary, Lit (lit ''TRUNCATE''), Plus isspace, Lit (lit ''TABLE''),
      Boundary] text = clause_occurs (lit ''TRUNCATE'') (lit ''TABLE'') text"
    by (rule re_search_clause) code_simp+
  have c3: "re_search [Boundary, Lit (lit ''DELETE''), Plus isspace, Lit (lit ''FROM''), Boundary]
      text = clause_occurs (lit ''DELETE'') (lit ''FROM'') text"
    by (rule re_search_clause) code_simp+
  have c4: "re_search [Boundary, Lit (lit ''INSERT''), Plus isspace, Lit (lit ''INTO''), Boundary]
      text = clause_occurs (lit ''INSERT'') (lit ''INTO'') text"
    by (rule re_search_clause) code_simp+
  have c6: "re_search [Boundary, Lit (lit ''CREATE''), Plus isspace, Lit (lit ''TABLE''), Boundary]
      text = clause_occurs (lit ''CREATE'') (lit ''TABLE'') text"
    by (rule re_search_clause) code_simp+
  have c7: "re_search [Boundary, Lit (lit ''ALTER''), Plus isspace, Lit (lit ''TABLE''), Boundary]
      text = clause_occurs (lit ''ALTER'') (lit ''TABLE'') text"
    by (rule re_search_clause) code_simp+
  show ?thesis
    unfolding dangerous_patterns_def dangerous_clause_occurs_def
    by (simp only: list_ex_Nil_iff list_ex_Cons_iff c1 c2 c3 c4 c6 c7 re_search_update) simp
qed

lemma validate_readonly_iff:
  "validate_sql sql READONLY = readonly_accepts sql"
  unfolding validate_sql_def validate_readonly_def readonly_accepts_def normalized_def
    extract_first_keyword_eq dangerous_patterns_iff contains_iff
    READONLY_OPERATIONS_def WRITE_OPERATIONS_def DANGEROUS_OPERATIONS_def
    Read_set_def Write_set_def Dangerous_set_def Let_def
  by simp

lemma validate_limited_write_iff:
  "validate_sql sql LIMITED_WRITE = limited_write_accepts sql"
  unfolding validate_sql_def validate_limited_write_def limited_write_accepts_def normalized_def
    extract_first_keyword_eq contains_iff
    READONLY_OPERATIONS_def WRITE_OPERATIONS_def DANGEROUS_OPERATIONS_def
    Read_set_def Write_set_def Dangerous_set_def Let_def
  by simp

text \<open>
  Claim C1. In read-only mode \<open>validate_sql\<close> accepts a statement exactly when the leading
  keyword of its upper-cased, trimmed text is in the Read set and, for the keyword
  \<open>SELECT\<close>, none of the seven dangerous clauses (\<open>DROP TABLE\<close>, \<open>TRUNCATE TABLE\<close>,
  \<open>DELETE FROM\<close>, \<open>INSERT INTO\<close>, \<open>UPDATE word SET\<close>, \<open>CREATE TABLE\<close>, \<open>ALTER TABLE\<close>;
  whole words, one or more whitespace characters between them) occurs in that text, and
  for any other Read keyword no Write or Dangerous keyword occurs in it as a substring.
  Whitespace and word characters are those of Python, the no-break space and the
  accented letters among them.
  It accepts \<open>SELECT * FROM T\<close> and rejects \<open>DELETE FROM T\<close>, \<open>DROP TABLE T\<close> and
  \<open>SELECT * FROM T; DROP TABLE T\<close>.
\<close>

theorem readonly_policy:
  "(validate_sql sql READONLY \<longleftrightarrow> readonly_accepts sql) \<and>
   validate_sql ''SELECT * FROM T'' READONLY \<and>
   \<not> validate_sql ''DELETE FROM T'' READONLY \<and>
   \<not> validate_sql ''DROP TABLE T'' READONLY \<and>
   \<not> validate_sql ''SELECT * FROM T; DROP TABLE T'' READONLY"
proof -
  have a: "validate_sql ''SELECT * FROM T'' READONLY" by code_simp
  have b: "\<not> validate_sql ''DELETE FROM T'' READONLY" by code_simp
  have c: "\<not> validate_sql ''DROP TABLE T'' READONLY" by code_simp
  have d: "\<not> validate_sql ''SELECT * FROM T; DROP TABLE T'' READONLY" by code_simp
  show ?thesis using validate_readonly_iff a b c d by blast
qed

theorem readonly_policy_witness:
  "readonly_accepts ''select a from t'' \<and>
   \<not> readonly_accepts ''select 1;  update t set a = 1'' \<and>
   \<not> readonly_accepts ''EXPLAIN DELETE FROM T'' \<and>
   readonly_accepts (''SELECT'' @ [CHR 0xA0] @ ''1'') \<and>
   \<not> readonly_accepts (''SELECT 1; DROP'' @ [CHR 0xA0] @ ''TABLE T'') \<and>
   \<not> readonly_accepts (''SELECT 1; UPDATE '' @ [CHR 0xC9] @ '' SET X=1'')"
proof -
  have a: "validate_sql ''select a from t'' READONLY" by code_simp
  have b: "\<not> validate_sql ''select 1;  update t set a = 1'' READONLY" by code_simp
  have c: "\<not> validate_sql ''EXPLAIN DELETE FROM T'' READONLY" by code_simp
  have d: "validate_sql (''SELECT'' @ [CHR 0xA0] @ ''1'') READONLY" by code_simp
  have e: "\<not> validate_sql (''SELECT 1; DROP'' @ [CHR 0xA0] @ ''TABLE T'') READONLY"
    by code_simp
  have f: "\<not> validate_sql (''SELECT 1; UPDATE '' @ [CHR 0xC9] @ '' SET X=1'') READONLY"
    by code_simp
  show ?thesis
    using a b c d e f readonly_policy [of "''select a from t''"]
      readonly_policy [of "''select 1;  update t set a = 1''"]
      readonly_policy [of "''EXPLAIN DELETE FROM T''"]
      readonly_policy [of "''SELECT'' @ [CHR 0xA0] @ ''1''"]
      readonly_policy [of "''SELECT 1; DROP'' @ [CHR 0xA0] @ ''TABLE T''"]
      readonly_policy [of "''SELECT 1; UPDATE '' @ [CHR 0xC9] @ '' SET X=1''"]
    by blast
qed

text \<open>
  Claim C2. In limited-write mode \<open>validate_sql\<close> accepts a statement exactly when its
  leading keyword is in the union of the Read and Write sets and no keyword of the
  Dangerous set occurs anywhere in the upper-cased text. It accepts
  \<open>INSERT INTO T VALUES (1)\<close> and \<open>UPDATE T SET X=1\<close>, and rejects \<open>DELETE FROM T\<close> and
  \<open>GRANT SELECT ON T TO U\<close>.
\<close>

theorem limited_write_policy:
  "(validate_sql sql LIMITED_WRITE \<longleftrightarrow> limited_write_accepts sql) \<and>
   validate_sql ''INSERT INTO T VALUES (1)'' LIMITED_WRITE \<and>
   validate_sql ''UPDATE T SET X=1'' LIMITED_WRITE \<and>
   \<not> validate_sql ''DELETE FROM T'' LIMITED_WRITE \<and>
   \<not> validate_sql ''GRANT SELECT ON T TO U'' LIMITED_WRITE"
proof -
  have a: "validate_sql ''INSERT INTO T VALUES (1)'' LIMITED_WRITE" by code_simp
  have b: "validate_sql ''UPDATE T SET X=1'' LIMITED_WRITE" by code_simp
  have c: "\<not> validate_sql ''DELETE FROM T'' LIMITED_WRITE" by code_simp
  have d: "\<not> validate_sql ''GRANT SELECT ON T TO U'' LIMITED_WRITE" by code_simp
  show ?thesis using validate_limited_write_iff a b c d by blast
qed

theorem limited_write_policy_witness:
  "limited_write_accepts ''update t set x = 1'' \<and>
   \<not> limited_write_accepts ''INSERT INTO T SELECT * FROM U; DROP TABLE U'' \<and>
   limited_write_accepts (''INSERT'' @ [CHR 0xA0] @ ''INTO T VALUES (1)'') \<and>
   limited_write_accepts ([CHR 0xA0] @ ''UPDATE T SET X=1'')"
proof -
  have a: "validate_sql ''update t set x = 1'' LIMITED_WRITE" by code_simp
  have b: "\<not> validate_sql ''INSERT INTO T SELECT * FROM U; DROP TABLE U'' LIMITED_WRITE"
    by code_simp
  have c: "validate_sql (''INSERT'' @ [CHR 0xA0] @ ''INTO T VALUES (1)'') LIMITED_WRITE"
    by code_simp
  have d: "validate_sql ([CHR 0xA0] @ ''UPDATE T SET X=1'') LIMITED_WRITE" by code_simp
  show ?thesis
    using a b c d limited_write_policy [of "''update t set x = 1''"]
      limited_write_policy [of "''INSERT INTO T SELECT * FROM U; DROP TABLE U''"]
      limited_write_policy [of "''INSERT'' @ [CHR 0xA0] @ ''INTO T VALUES (1)''"]
      limited_write_policy [of "[CHR 0xA0] @ ''UPDATE T SET X=1''"]
    by blast
qed

text \<open>
  Claim C6. A blank or whitespace-only statement has an empty leading keyword; a statement
  with an empty leading keyword is rejected in read-only and in limited-write mode and
  accepted in full-access mode; full-access mode accepts every statement, \<open>DROP TABLE T\<close>
  among them.
\<close>

theorem blank_and_full_access:
  "(list_all (\<lambda>c. isspace (Latin1 c)) sql \<longrightarrow> extract_first_keyword (strip (upper sql)) = []) \<and>
   (extract_first_keyword (strip (upper sql)) = [] \<longrightarrow>
      \<not> validate_sql sql READONLY \<and> \<not> validate_sql sql LIMITED_WRITE \<and>
      validate_sql sql FULL_ACCESS) \<and>
   validate_sql any_sql FULL_ACCESS \<and>
   validate_sql ''DROP TABLE T'' FULL_ACCESS"
proof -
  have a: "list_all (\<lambda>c. isspace (Latin1 c)) sql \<longrightarrow>
      extract_first_keyword (strip (upper sql)) = []"
    by (simp add: blank_normalized extract_first_keyword_def str_split_def)
  have b: "extract_first_keyword (strip (upper sql)) = [] \<longrightarrow>
      \<not> validate_sql sql READONLY \<and> \<not> validate_sql sql LIMITED_WRITE"
    by (simp add: validate_sql_def validate_readonly_def validate_limited_write_def
        READONLY_OPERATIONS_def WRITE_OPERATIONS_def lit_def)
  have c: "\<And>s. validate_sql s FULL_ACCESS"
    by (simp add: validate_sql_def)
  show ?thesis using a b c by blast
qed

theorem blank_and_full_access_witness:
  "list_all (\<lambda>c. isspace (Latin1 c)) [CHR '' '', CHR 0x09, CHR 0x0A, CHR 0xA0] \<and>
   extract_first_keyword (strip (upper [CHR '' '', CHR 0x09, CHR 0x0A, CHR 0xA0])) = [] \<and>
   \<not> validate_sql [CHR '' '', CHR 0x09, CHR 0x0A, CHR 0xA0] READONLY \<and>
   \<not> validate_sql [CHR '' '', CHR 0x09, CHR 0x0A, CHR 0xA0] LIMITED_WRITE \<and>
   validate_sql [CHR '' '', CHR 0x09, CHR 0x0A, CHR 0xA0] FULL_ACCESS \<and>
   \<not> validate_sql [] READONLY \<and> \<not> validate_sql [] LIMITED_WRITE \<and> validate_sql [] FULL_ACCESS"
proof -
  have a: "list_all (\<lambda>c. isspace (Latin1 c)) [CHR '' '', CHR 0x09, CHR 0x0A, CHR 0xA0]"
    by code_simp
  have b: "list_all (\<lambda>c. isspace (Latin1 c)) ([] :: string)" by simp
  show ?thesis
    using a b blank_and_full_access [of "[CHR '' '', CHR 0x09, CHR 0x0A, CHR 0xA0]"]
      blank_and_full_access [of "[]"]
    by blast
qed

subsection \<open>Association lists and the oldest key\<close>

text \<open>
  The equations that evaluate the cache operations on concrete states. The concrete runs
  below read small integers from the clock, on which the subtraction of double precision
  is exact: there \<open>fsub\<close> is the subtraction of the reals.
\<close>

lemmas cache_eval = run_ops_def cache_set_def cache_get_def QueryCache_init_def
  evict_oldest_def oldest_key_def generate_key_def remove_def clear_def Let_def

lemma length_update_le: "length (AList.update k v al) \<le> Suc (length al)"
  by (induction al) auto

lemma update_absent: "k \<notin> fst ` set al \<Longrightarrow> AList.update k v al = al @ [(k, v)]"
  by (induction al) auto

lemma length_delete_present:
  "distinct (map fst al) \<Longrightarrow> k \<in> fst ` set al \<Longrightarrow> Suc (length (AList.delete k al)) = length al"
  by (induction al) (auto simp: rev_image_eqI)

lemma min_by_time_first:
  "\<exists>before after. best # rest = before @ min_by_time best rest # after \<and>
     (\<forall>x \<in> set before. snd (min_by_time best rest) < snd x) \<and>
     (\<forall>x \<in> set after. snd (min_by_time best rest) \<le> snd x)"
proof (induction rest arbitrary: best)
  case Nil
  have "[best] = [] @ best # []" by simp
  then show ?case by fastforce
next
  case (Cons x xs)
  let ?b = "if snd x < snd best then x else best"
  let ?m = "min_by_time ?b xs"
  obtain before after where h: "?b # xs = before @ ?m # after"
    "\<forall>y \<in> set before. snd ?m < snd y" "\<forall>y \<in> set after. snd ?m \<le> snd y"
    using Cons.IH [of ?b] by blast
  have m: "min_by_time best (x # xs) = ?m" by simp
  have le: "snd ?m \<le> snd ?b"
    using h by (cases before) auto
  show ?case
  proof (cases before)
    case Nil
    with h have mb: "?m = ?b" and ax: "after = xs" by auto
    show ?thesis
    proof (cases "snd x < snd best")
      case True
      with mb have "best # x # xs = [best] @ ?m # xs" by simp
      moreover have "\<forall>y \<in> set [best]. snd ?m < snd y" using True mb by simp
      moreover have "\<forall>y \<in> set xs. snd ?m \<le> snd y" using h ax by simp
      ultimately show ?thesis unfolding m by blast
    next
      case False
      with mb have "best # x # xs = [] @ ?m # (x # xs)" by simp
      moreover have "\<forall>y \<in> set (x # xs). snd ?m \<le> snd y" using False mb h ax by auto
      ultimately show ?thesis unfolding m by fastforce
    qed
  next
    case (Cons b bs)
    with h have bb: "b = ?b" and xs: "xs = bs @ ?m # after" by auto
    have lt: "snd ?m < snd ?b" using h Cons bb by auto
    show ?thesis
    proof (cases "snd x < snd best")
      case True
      then have "best # x # xs = (best # x # bs) @ ?m # after" using xs by simp
      moreover have "\<forall>y \<in> set (best # x # bs). snd ?m < snd y"
        using True lt h Cons by auto
      ultimately show ?thesis unfolding m using h(3) by blast
    next
      case False
      then have "best # x # xs = (best # x # bs) @ ?m # after" using xs by simp
      moreover have "\<forall>y \<in> set (best # x # bs). snd ?m < snd y"
        using False lt h Cons by auto
      ultimately show ?thesis unfolding m using h(3) by blast
    qed
  qed
qed

lemma min_by_time_mem: "min_by_time best rest \<in> set (best # rest)"
  by (induction rest arbitrary: best) auto

lemma min_by_time_head:
  "\<forall>x \<in> set rest. snd best \<le> snd x \<Longrightarrow> min_by_time best rest = best"
  by (induction rest arbitrary: best) auto

lemma oldest_key_mem:
  "access_times qc \<noteq> [] \<Longrightarrow> \<exists>k. oldest_key qc = Some k \<and> k \<in> fst ` set (access_times qc)"
proof -
  assume "access_times qc \<noteq> []"
  then obtain kt kts where e: "access_times qc = kt # kts"
    by (cases "access_times qc") auto
  have "fst (min_by_time kt kts) \<in> fst ` set (kt # kts)"
    using min_by_time_mem by (rule imageI)
  then show ?thesis by (simp add: oldest_key_def e)
qed

subsection \<open>Reachable caches\<close>

lemma wf_init: "cache_wf (QueryCache_init cap life)"
  by (simp add: cache_wf_def QueryCache_init_def)

lemma wf_remove: "cache_wf qc \<Longrightarrow> cache_wf (remove qc k)"
  by (simp add: cache_wf_def remove_def delete_keys distinct_removeAll)

lemma wf_evict: "cache_wf qc \<Longrightarrow> cache_wf (evict_oldest qc)"
  by (simp add: evict_oldest_def wf_remove split: option.splits)

lemma wf_get: "cache_wf qc \<Longrightarrow> cache_wf (snd (cache_get md5 fsub qc sql schema t1 t2))"
proof -
  assume wf: "cache_wf qc"
  show ?thesis
  proof (cases "map_of (cache qc) (generate_key md5 sql schema)")
    case None
    then show ?thesis using wf by (simp add: cache_get_def)
  next
    case (Some e)
    then have "generate_key md5 sql schema \<in> set (map fst (cache qc))"
      by (metis map_of_eq_None_iff option.distinct(1) set_map)
    then have "map fst (AList.update (generate_key md5 sql schema) t2 (access_times qc)) =
        map fst (cache qc)"
      using wf by (simp add: update_keys cache_wf_def)
    then show ?thesis using wf Some
      by (simp add: cache_get_def Let_def wf_remove) (simp add: cache_wf_def)
  qed
qed

lemma wf_store:
  "cache_wf qc \<Longrightarrow>
   cache_wf (qc\<lparr>cache := AList.update k e (cache qc),
               access_times := AList.update k t (access_times qc)\<rparr>)"
  by (simp add: cache_wf_def update_keys)

lemma wf_set: "cache_wf qc \<Longrightarrow> cache_wf (cache_set md5 qc sql d schema t1 t2)"
  by (simp add: cache_set_def Let_def wf_store wf_evict)

lemma wf_clear: "cache_wf (clear qc)"
  by (simp add: cache_wf_def clear_def)

lemma wf_apply_op: "cache_wf qc \<Longrightarrow> cache_wf (apply_op md5 fsub qc op)"
  by (cases op) (simp_all add: wf_get wf_set wf_clear)

lemma wf_run_ops: "cache_wf qc \<Longrightarrow> cache_wf (run_ops md5 fsub qc ops)"
  unfolding run_ops_def by (induction ops arbitrary: qc) (simp_all add: wf_apply_op)


lemma set_below_capacity:
  "\<not> max_size qc \<le> int (length (cache qc)) \<Longrightarrow>
   cache_set md5 qc sql d schema t1 t2 =
     qc\<lparr>cache := AList.update (generate_key md5 sql schema)
                \<lparr>entry_data = d, entry_timestamp = t1, entry_sql = sql, entry_schema = schema\<rparr>
                (cache qc),
        access_times := AList.update (generate_key md5 sql schema) t2 (access_times qc)\<rparr>"
  by (simp add: cache_set_def Let_def)

lemma set_at_capacity:
  assumes wf: "cache_wf qc" and cap: "1 \<le> max_size qc"
    and full: "int (length (cache qc)) = max_size qc"
  shows "\<exists>k t before after.
     oldest_key qc = Some k \<and>
     access_times qc = before @ (k, t) # after \<and>
     (\<forall>x \<in> set before. t < snd x) \<and> (\<forall>x \<in> set after. t \<le> snd x) \<and>
     k \<in> fst ` set (cache qc) \<and>
     Suc (length (cache (remove qc k))) = length (cache qc) \<and>
     cache (cache_set md5 qc sql d schema t1 t2) =
       AList.update (generate_key md5 sql schema)
         \<lparr>entry_data = d, entry_timestamp = t1, entry_sql = sql, entry_schema = schema\<rparr>
         (AList.delete k (cache qc)) \<and>
     access_times (cache_set md5 qc sql d schema t1 t2) =
       AList.update (generate_key md5 sql schema) t2 (AList.delete k (access_times qc))"
proof -
  have "cache qc \<noteq> []" using cap full by auto
  then have "map fst (access_times qc) \<noteq> []" using wf by (simp add: cache_wf_def)
  then obtain kt kts where e: "access_times qc = kt # kts"
    by (cases "access_times qc") auto
  define m where "m = min_by_time kt kts"
  obtain before after where h: "kt # kts = before @ m # after"
    "\<forall>x \<in> set before. snd m < snd x" "\<forall>x \<in> set after. snd m \<le> snd x"
    using min_by_time_first [of kt kts] unfolding m_def by blast
  have ok: "oldest_key qc = Some (fst m)" by (simp add: oldest_key_def e m_def)
  from wf have keq: "map fst (access_times qc) = map fst (cache qc)"
    by (simp add: cache_wf_def)
  have "fst m \<in> set (map fst (before @ m # after))" by simp
  then have "fst m \<in> set (map fst (access_times qc))" using e h(1) by simp
  then have "fst m \<in> set (map fst (cache qc))" unfolding keq .
  then have mem: "fst m \<in> fst ` set (cache qc)" by simp
  have len: "Suc (length (cache (remove qc (fst m)))) = length (cache qc)"
    using wf mem by (simp add: remove_def cache_wf_def length_delete_present)
  have ev: "evict_oldest qc = remove qc (fst m)" by (simp add: evict_oldest_def ok)
  have c1: "cache (cache_set md5 qc sql d schema t1 t2) =
       AList.update (generate_key md5 sql schema)
         \<lparr>entry_data = d, entry_timestamp = t1, entry_sql = sql, entry_schema = schema\<rparr>
         (AList.delete (fst m) (cache qc))"
    using full by (simp add: cache_set_def Let_def ev remove_def)
  have c2: "access_times (cache_set md5 qc sql d schema t1 t2) =
       AList.update (generate_key md5 sql schema) t2 (AList.delete (fst m) (access_times qc))"
    using full by (simp add: cache_set_def Let_def ev remove_def)
  have "access_times qc = before @ (fst m, snd m) # after" using e h(1) by simp
  with ok h(2,3) mem len c1 c2 show ?thesis by blast
qed

lemma max_size_remove: "max_size (remove qc k) = max_size qc"
  by (simp add: remove_def)

lemma max_size_set: "max_size (cache_set md5 qc sql d schema t1 t2) = max_size qc"
  by (simp add: cache_set_def Let_def evict_oldest_def remove_def split: option.splits)

lemma max_size_get: "max_size (snd (cache_get md5 fsub qc sql schema t1 t2)) = max_size qc"
  by (simp add: cache_get_def Let_def remove_def split: option.splits)

lemma max_size_apply_op: "max_size (apply_op md5 fsub qc op) = max_size qc"
  by (cases op) (simp_all add: max_size_get max_size_set clear_def)

lemma length_get:
  "length (cache (snd (cache_get md5 fsub qc sql schema t1 t2))) \<le> length (cache qc)"
  by (simp add: cache_get_def Let_def remove_def length_delete_le split: option.splits)

lemma length_set:
  assumes wf: "cache_wf qc" and cap: "1 \<le> max_size qc"
    and le: "int (length (cache qc)) \<le> max_size qc"
  shows "int (length (cache (cache_set md5 qc sql d schema t1 t2))) \<le> max_size qc"
proof (cases "int (length (cache qc)) = max_size qc")
  case True
  obtain k where k: "Suc (length (cache (remove qc k))) = length (cache qc)"
    "cache (cache_set md5 qc sql d schema t1 t2) =
       AList.update (generate_key md5 sql schema)
         \<lparr>entry_data = d, entry_timestamp = t1, entry_sql = sql, entry_schema = schema\<rparr>
         (AList.delete k (cache qc))"
    using set_at_capacity [OF wf cap True, of md5 sql d schema t1 t2] by blast
  have "length (cache (cache_set md5 qc sql d schema t1 t2)) \<le> Suc (length (AList.delete k (cache qc)))"
    unfolding k(2) by (rule length_update_le)
  also have "\<dots> = length (cache qc)" using k(1) by (simp add: remove_def)
  finally show ?thesis using le by simp
next
  case False
  then have lt: "\<not> max_size qc \<le> int (length (cache qc))" using le by simp
  have "length (cache (cache_set md5 qc sql d schema t1 t2)) \<le> Suc (length (cache qc))"
    unfolding set_below_capacity [OF lt] by (simp add: length_update_le)
  then show ?thesis using lt by simp
qed

lemma bounded_apply_op:
  assumes "cache_wf qc" "1 \<le> max_size qc" "int (length (cache qc)) \<le> max_size qc"
  shows "int (length (cache (apply_op md5 fsub qc op))) \<le> max_size qc"
proof (cases op)
  case (Get sql schema t1 t2)
  then show ?thesis using assms(3) length_get [of md5 fsub qc sql schema t1 t2] by simp
next
  case (Set sql d schema t1 t2)
  then show ?thesis using length_set [OF assms] by simp
next
  case Clear
  then show ?thesis using assms(2) by (simp add: clear_def)
next
  case Stats
  then show ?thesis using assms(3) by simp
qed

lemma bounded_run_ops:
  "cache_wf qc \<Longrightarrow> 1 \<le> max_size qc \<Longrightarrow> int (length (cache qc)) \<le> max_size qc \<Longrightarrow>
   int (length (cache (run_ops md5 fsub qc ops))) \<le> max_size qc \<and>
   max_size (run_ops md5 fsub qc ops) = max_size qc"
  unfolding run_ops_def
proof (induction ops arbitrary: qc)
  case Nil
  then show ?case by simp
next
  case (Cons op ops)
  have "cache_wf (apply_op md5 fsub qc op)" using Cons.prems(1) by (rule wf_apply_op)
  moreover have "1 \<le> max_size (apply_op md5 fsub qc op)"
    using Cons.prems(2) by (simp add: max_size_apply_op)
  moreover have "int (length (cache (apply_op md5 fsub qc op))) \<le> max_size (apply_op md5 fsub qc op)"
    using bounded_apply_op [OF Cons.prems] by (simp add: max_size_apply_op)
  ultimately show ?case using Cons.IH [of "apply_op md5 fsub qc op"]
    by (simp add: max_size_apply_op)
qed

text \<open>
  Claim C3, amended. For every sequence of public cache operations (get, set, clear,
  stats) starting from an empty cache whose configured capacity is at least 1, with any
  ttl, after each operation the number of stored entries is at most the capacity and the
  keys of \<open>access_times\<close> are among the keys of \<open>cache\<close>.
\<close>

theorem cache_invariant_reachable:
  "1 \<le> cap \<Longrightarrow> cache_invariant (run_ops md5 fsub (QueryCache_init cap life) ops)"
proof -
  assume cap: "1 \<le> cap"
  let ?q0 = "QueryCache_init cap life :: 'a QueryCache"
  have wf0: "cache_wf ?q0" by (rule wf_init)
  have m0: "1 \<le> max_size ?q0" using cap by (simp add: QueryCache_init_def)
  have l0: "int (length (cache ?q0)) \<le> max_size ?q0" using cap by (simp add: QueryCache_init_def)
  have "cache_wf (run_ops md5 fsub ?q0 ops)" using wf0 by (rule wf_run_ops)
  moreover have "int (length (cache (run_ops md5 fsub ?q0 ops))) \<le> max_size (run_ops md5 fsub ?q0 ops)"
    using bounded_run_ops [OF wf0 m0 l0, of md5 fsub ops] by simp
  ultimately show ?thesis by (simp add: cache_invariant_def cache_wf_def)
qed

theorem cache_invariant_reachable_witness:
  "(1::int) \<le> 2 \<and>
   cache_invariant (run_ops id (-) (QueryCache_init 2 300)
     [Set ''a'' [Suc 0] None 0 0, Set ''b'' [] None 1 1, Get ''a'' None 2 2,
      Set ''c'' [] None 3 3, Get ''b'' None 400 400, Clear, Set ''a'' [] None 401 401])"
  using cache_invariant_reachable [of 2 id "(-)" 300
     "[Set ''a'' [Suc 0] None 0 0, Set ''b'' [] None 1 1, Get ''a'' None 2 2,
      Set ''c'' [] None 3 3, Get ''b'' None 400 400, Clear, Set ''a'' [] None 401 401]"]
  by simp

text \<open>
  With capacity 0 the claim as stated fails: \<open>set\<close> finds nothing to evict in the empty
  cache and stores the entry, leaving one entry in a cache of capacity 0.
\<close>

theorem cache_invariant_counterexample:
  "\<not> cache_invariant (run_ops id (-) (QueryCache_init 0 300) [Set ''SELECT 1'' [Suc 0] None 0 0])"
  by (simp add: cache_invariant_def run_ops_def cache_set_def QueryCache_init_def
      evict_oldest_def oldest_key_def generate_key_def Let_def)

subsection \<open>Eviction\<close>

lemma run_ops_snoc: "run_ops md5 fsub qc (ops @ [op]) = apply_op md5 fsub (run_ops md5 fsub qc ops) op"
  by (simp add: run_ops_def)

lemma fill_below_capacity:
  "int (length items) \<le> cap \<Longrightarrow> distinct (map (insertion_key md5) items) \<Longrightarrow>
   map fst (cache (run_ops md5 fsub (QueryCache_init cap life) (map insertion_op items))) =
     map (insertion_key md5) items \<and>
   access_times (run_ops md5 fsub (QueryCache_init cap life) (map insertion_op items)) =
     map (\<lambda>i. (insertion_key md5 i, insertion_time i)) items \<and>
   max_size (run_ops md5 fsub (QueryCache_init cap life) (map insertion_op items)) = cap"
proof (induction items rule: rev_induct)
  case Nil
  then show ?case by (simp add: run_ops_def QueryCache_init_def)
next
  case (snoc x xs)
  let ?q = "run_ops md5 fsub (QueryCache_init cap life) (map insertion_op xs)"
  obtain sql d schema t1 t2 where x: "x = (sql, d, schema, t1, t2)"
    by (cases x) auto
  have ih: "map fst (cache ?q) = map (insertion_key md5) xs"
    "access_times ?q = map (\<lambda>i. (insertion_key md5 i, insertion_time i)) xs"
    "max_size ?q = cap"
    using snoc by simp_all
  have "length (cache ?q) = length xs" using ih(1) by (metis length_map)
  then have lt: "\<not> max_size ?q \<le> int (length (cache ?q))"
    using snoc.prems(1) ih(3) by simp
  have new: "generate_key md5 sql schema \<notin> set (map (insertion_key md5) xs)"
    using snoc.prems(2) x by simp
  have n1: "generate_key md5 sql schema \<notin> set (map fst (cache ?q))"
    using new unfolding ih(1) .
  have n2: "generate_key md5 sql schema \<notin> fst ` set (access_times ?q)"
    using new unfolding ih(2) by (simp add: image_image)
  have step: "run_ops md5 fsub (QueryCache_init cap life) (map insertion_op (xs @ [x])) =
      cache_set md5 ?q sql d schema t1 t2"
    by (simp add: run_ops_snoc x)
  show ?case
    unfolding step set_below_capacity [OF lt]
    using n1 n2 ih by (simp add: update_keys update_absent x)
qed

lemma overflow_insert:
  assumes cap: "1 \<le> cap" and len: "length items = Suc (nat cap)"
    and dist: "distinct (map (insertion_key md5) items)"
    and incr: "sorted_wrt (<) (map insertion_time items)"
  shows "map fst (cache (run_ops md5 fsub (QueryCache_init cap life) (map insertion_op items))) =
     tl (map (insertion_key md5) items)"
proof -
  obtain xs x where items: "items = xs @ [x]"
    using len by (cases items rule: rev_cases) auto
  obtain sql d schema t1 t2 where x: "x = (sql, d, schema, t1, t2)"
    by (cases x) auto
  have lxs: "int (length xs) = cap" using len items cap by simp
  then obtain x0 xs' where xs: "xs = x0 # xs'" using cap by (cases xs) auto
  define q where "q = run_ops md5 fsub (QueryCache_init cap life) (map insertion_op xs)"
  have dxs: "distinct (map (insertion_key md5) xs)" using dist items by simp
  have fill: "map fst (cache q) = map (insertion_key md5) xs"
    "access_times q = map (\<lambda>i. (insertion_key md5 i, insertion_time i)) xs"
    "max_size q = cap"
    unfolding q_def using fill_below_capacity [of xs cap md5 fsub life] lxs dxs by simp_all
  have "length (cache q) = length xs" using fill(1) by (metis length_map)
  then have full: "max_size q \<le> int (length (cache q))"
    using fill(3) lxs by simp
  have "\<forall>y \<in> set xs'. insertion_time x0 < insertion_time y"
    using incr items xs by (simp add: sorted_wrt_append)
  then have "min_by_time (insertion_key md5 x0, insertion_time x0)
      (map (\<lambda>i. (insertion_key md5 i, insertion_time i)) xs') =
      (insertion_key md5 x0, insertion_time x0)"
    by (intro min_by_time_head) auto
  then have ok: "oldest_key q = Some (insertion_key md5 x0)"
    by (simp add: oldest_key_def fill(2) xs)
  have k0: "insertion_key md5 x0 \<notin> set (map (insertion_key md5) xs')"
    using dxs xs by simp
  have del: "map fst (AList.delete (insertion_key md5 x0) (cache q)) =
      map (insertion_key md5) xs'"
    using k0 by (simp add: delete_keys fill(1) xs)
  have new: "generate_key md5 sql schema \<notin> set (map (insertion_key md5) xs')"
    using dist items xs x by simp
  have step: "run_ops md5 fsub (QueryCache_init cap life) (map insertion_op items) =
      cache_set md5 q sql d schema t1 t2"
    by (simp add: run_ops_snoc x items q_def)
  have "map fst (cache (cache_set md5 q sql d schema t1 t2)) =
      map (insertion_key md5) xs' @ [generate_key md5 sql schema]"
    using full new by (simp add: cache_set_def Let_def evict_oldest_def ok remove_def
        update_keys del)
  then show ?thesis unfolding step by (simp add: items xs x)
qed

text \<open>
  Claim C4, amended. In a cache of capacity at least 1 that is reached from the empty
  cache by public operations and holds exactly capacity entries, \<open>set\<close> first evicts
  exactly one entry, the first in iteration order among those with the smallest access
  time, and then stores the new entry. Consequently, inserting capacity + 1 distinct keys
  with strictly increasing access times into an empty cache of capacity at least 1 leaves
  exactly capacity entries, and the first key inserted, the least recently touched, is the
  only one absent.
\<close>

theorem eviction_at_capacity:
  "(1 \<le> cap \<and> qc = run_ops md5 fsub (QueryCache_init cap life) ops \<and>
    int (length (cache qc)) = cap \<longrightarrow>
      (\<exists>k t before after.
         oldest_key qc = Some k \<and>
         access_times qc = before @ (k, t) # after \<and>
         (\<forall>x \<in> set before. t < snd x) \<and> (\<forall>x \<in> set after. t \<le> snd x) \<and>
         k \<in> fst ` set (cache qc) \<and>
         Suc (length (cache (remove qc k))) = length (cache qc) \<and>
         cache (cache_set md5 qc sql d schema t1 t2) =
           AList.update (generate_key md5 sql schema)
             \<lparr>entry_data = d, entry_timestamp = t1, entry_sql = sql, entry_schema = schema\<rparr>
             (AList.delete k (cache qc)) \<and>
         access_times (cache_set md5 qc sql d schema t1 t2) =
           AList.update (generate_key md5 sql schema) t2 (AList.delete k (access_times qc)))) \<and>
   (1 \<le> cap \<and> length items = Suc (nat cap) \<and>
    distinct (map (insertion_key md5) items) \<and>
    sorted_wrt (<) (map insertion_time items) \<longrightarrow>
      map fst (cache (run_ops md5 fsub (QueryCache_init cap life) (map insertion_op items))) =
        tl (map (insertion_key md5) items) \<and>
      length (cache (run_ops md5 fsub (QueryCache_init cap life) (map insertion_op items))) = nat cap \<and>
      insertion_key md5 (hd items) \<notin>
        fst ` set (cache (run_ops md5 fsub (QueryCache_init cap life) (map insertion_op items))) \<and>
      (\<forall>i \<in> set (tl items). insertion_key md5 i \<in>
        fst ` set (cache (run_ops md5 fsub (QueryCache_init cap life) (map insertion_op items)))))"
proof (intro conjI impI)
  assume a: "1 \<le> cap \<and> qc = run_ops md5 fsub (QueryCache_init cap life) ops \<and>
    int (length (cache qc)) = cap"
  let ?q0 = "QueryCache_init cap life :: 'a QueryCache"
  from a have a1: "1 \<le> cap" and a2: "qc = run_ops md5 fsub ?q0 ops"
    and a3: "int (length (cache qc)) = cap" by blast+
  have wf: "cache_wf qc" unfolding a2 using wf_init by (rule wf_run_ops)
  have m0: "1 \<le> max_size ?q0" using a1 by (simp add: QueryCache_init_def)
  have l0: "int (length (cache ?q0)) \<le> max_size ?q0" using a1 by (simp add: QueryCache_init_def)
  have ms: "max_size qc = cap"
    unfolding a2 using bounded_run_ops [OF wf_init m0 l0, of md5 fsub ops]
    by (simp add: QueryCache_init_def)
  have c1: "1 \<le> max_size qc" using a1 ms by simp
  have f: "int (length (cache qc)) = max_size qc" using a3 ms by simp
  show "\<exists>k t before after.
         oldest_key qc = Some k \<and>
         access_times qc = before @ (k, t) # after \<and>
         (\<forall>x \<in> set before. t < snd x) \<and> (\<forall>x \<in> set after. t \<le> snd x) \<and>
         k \<in> fst ` set (cache qc) \<and>
         Suc (length (cache (remove qc k))) = length (cache qc) \<and>
         cache (cache_set md5 qc sql d schema t1 t2) =
           AList.update (generate_key md5 sql schema)
             \<lparr>entry_data = d, entry_timestamp = t1, entry_sql = sql, entry_schema = schema\<rparr>
             (AList.delete k (cache qc)) \<and>
         access_times (cache_set md5 qc sql d schema t1 t2) =
           AList.update (generate_key md5 sql schema) t2 (AList.delete k (access_times qc))"
    by (rule set_at_capacity [OF wf c1 f])
next
  assume b: "1 \<le> cap \<and> length items = Suc (nat cap) \<and>
    distinct (map (insertion_key md5) items) \<and>
    sorted_wrt (<) (map insertion_time items)"
  let ?r = "run_ops md5 fsub (QueryCache_init cap life) (map insertion_op items)"
  have keys: "map fst (cache ?r) = tl (map (insertion_key md5) items)"
    using overflow_insert b by blast
  obtain x0 xs where items: "items = x0 # xs" using b by (cases items) auto
  show "map fst (cache ?r) = tl (map (insertion_key md5) items)" by (rule keys)
  have "length (map fst (cache ?r)) = nat cap" unfolding keys using b by simp
  then show "length (cache ?r) = nat cap" by simp
  have "insertion_key md5 (hd items) \<notin> set (map fst (cache ?r))"
    unfolding keys using b items by simp
  then show "insertion_key md5 (hd items) \<notin> fst ` set (cache ?r)" by simp
  have "\<forall>i \<in> set (tl items). insertion_key md5 i \<in> set (map fst (cache ?r))"
    unfolding keys by (simp add: items)
  then show "\<forall>i \<in> set (tl items). insertion_key md5 i \<in> fst ` set (cache ?r)" by simp
qed

theorem eviction_at_capacity_witness:
  "(1::int) \<le> 2 \<and>
   int (length (cache (run_ops id (-) (QueryCache_init 2 300)
      [Set ''a'' [Suc 0] None 0 0, Set ''b'' [] None 1 1, Get ''a'' None 2 2]))) = 2 \<and>
   oldest_key (run_ops id (-) (QueryCache_init 2 300)
      [Set ''a'' [Suc 0] None 0 0, Set ''b'' [] None 1 1, Get ''a'' None 2 2]) = Some ''b_'' \<and>
   (\<exists>k. oldest_key (run_ops id (-) (QueryCache_init 2 300)
      [Set ''a'' [Suc 0] None 0 0, Set ''b'' [] None 1 1, Get ''a'' None 2 2]) = Some k \<and>
     cache (cache_set id (run_ops id (-) (QueryCache_init 2 300)
        [Set ''a'' [Suc 0] None 0 0, Set ''b'' [] None 1 1, Get ''a'' None 2 2])
        ''c'' [] None 3 3) =
       AList.update (generate_key id ''c'' None)
         \<lparr>entry_data = [], entry_timestamp = 3, entry_sql = ''c'', entry_schema = None\<rparr>
         (AList.delete k (cache (run_ops id (-) (QueryCache_init 2 300)
            [Set ''a'' [Suc 0] None 0 0, Set ''b'' [] None 1 1, Get ''a'' None 2 2])))) \<and>
   length ([(''a'', [Suc 0], None, 0, 0), (''b'', [], None, 1, 1), (''c'', [], None, 2, 2)]
     :: nat list insertion list) = Suc (nat 2) \<and>
   distinct (map (insertion_key id)
     [(''a'', [Suc 0], None, 0, 0), (''b'', [], None, 1, 1), (''c'', [], None, 2, 2)]) \<and>
   sorted_wrt (<) (map insertion_time
     [(''a'', [Suc 0], None, 0, 0), (''b'', [], None, 1, 1), (''c'', [], None, 2, 2)]) \<and>
   map fst (cache (run_ops id (-) (QueryCache_init 2 300) (map insertion_op
     [(''a'', [Suc 0], None, 0, 0), (''b'', [], None, 1, 1), (''c'', [], None, 2, 2)]))) =
     [''b_'', ''c_'']"
proof -
  let ?ops = "[Set ''a'' [Suc 0] None 0 0, Set ''b'' [] None 1 1, Get ''a'' None 2 2]"
  let ?items = "[(''a'', [Suc 0], None, 0, 0), (''b'', [], None, 1, 1), (''c'', [], None, 2, 2)]
    :: nat list insertion list"
  let ?q = "run_ops id (-) (QueryCache_init 2 300) ?ops"
  have h0: "(1::int) \<le> 2" by simp
  have h1: "int (length (cache ?q)) = 2" by (simp add: cache_eval)
  have h2: "oldest_key ?q = Some ''b_''" by (simp add: cache_eval)
  have h3: "length ?items = Suc (nat 2)" by simp
  have h4: "distinct (map (insertion_key id) ?items)" by (simp add: generate_key_def)
  have h5: "sorted_wrt (<) (map insertion_time ?items)" by simp
  have h6: "tl (map (insertion_key id) ?items) = [''b_'', ''c_'']"
    by (simp add: generate_key_def)
  note T = eviction_at_capacity [of 2 ?q id "(-)" 300 ?ops "''c''" "[]" None 3 3 ?items]
  have p1: "\<exists>k. oldest_key ?q = Some k \<and>
     cache (cache_set id ?q ''c'' [] None 3 3) =
       AList.update (generate_key id ''c'' None)
         \<lparr>entry_data = [], entry_timestamp = 3, entry_sql = ''c'', entry_schema = None\<rparr>
         (AList.delete k (cache ?q))"
    using T h0 h1 by blast
  have p2: "map fst (cache (run_ops id (-) (QueryCache_init 2 300) (map insertion_op ?items))) =
     tl (map (insertion_key id) ?items)"
    using T h0 h3 h4 h5 by blast
  note p3 = p2 [unfolded h6]
  show ?thesis
    apply (intro conjI)
           apply (rule h0)
          apply (rule h1)
         apply (rule h2)
        apply (rule p1)
       apply (rule h3)
      apply (rule h4)
     apply (rule h5)
    apply (rule p3)
    done
qed

text \<open>
  With capacity 0 the claim as stated fails: the empty cache holds exactly capacity
  entries, \<open>set\<close> evicts nothing, and inserting capacity + 1 = 1 key leaves one entry.
\<close>

theorem eviction_at_capacity_counterexample:
  "int (length (cache (QueryCache_init 0 300 :: nat list QueryCache))) = 0 \<and>
   max_size (QueryCache_init 0 300 :: nat list QueryCache) = 0 \<and>
   evict_oldest (QueryCache_init 0 300 :: nat list QueryCache) = QueryCache_init 0 300 \<and>
   length (cache (run_ops id (-) (QueryCache_init 0 300)
     (map insertion_op [(''SELECT 1'', [Suc 0], None, 0, 0)]))) = 1"
  by (simp add: cache_eval)

subsection \<open>Round trip\<close>

lemma get_after_set:
  assumes "generate_key md5 sql' schema' = generate_key md5 sql schema"
  shows "cache_get md5 fsub (cache_set md5 qc sql d schema t1 t2) sql' schema' t3 t4 =
     (if fsub t3 t1 > real_of_int (ttl qc)
        then (None, remove (cache_set md5 qc sql d schema t1 t2) (generate_key md5 sql schema))
        else (Some d,
              (cache_set md5 qc sql d schema t1 t2)
                \<lparr>access_times := AList.update (generate_key md5 sql schema) t4
                   (access_times (cache_set md5 qc sql d schema t1 t2))\<rparr>))"
proof -
  have m: "map_of (cache (cache_set md5 qc sql d schema t1 t2)) (generate_key md5 sql schema) =
      Some \<lparr>entry_data = d, entry_timestamp = t1, entry_sql = sql, entry_schema = schema\<rparr>"
    by (simp add: cache_set_def Let_def update_conv')
  have t: "ttl (cache_set md5 qc sql d schema t1 t2) = ttl qc"
    by (simp add: cache_set_def Let_def evict_oldest_def remove_def split: option.splits)
  show ?thesis
    unfolding cache_get_def assms Let_def m t by simp
qed

text \<open>
  Claim C5. For every cache, statement, payload and namespace, \<open>set\<close> at creation time
  \<open>t1\<close> followed by \<open>get\<close> of the same statement and namespace, checked at time \<open>t3\<close>,
  where \<open>now - createdAt\<close> is the difference \<open>fsub t3 t1\<close> that the program computes: if
  it is at most the ttl, the get returns the stored payload and sets the key's access time
  to the time it reads next; if it is greater than the ttl, the get returns nothing and
  removes the entry from both dictionaries. This holds whatever the subtraction rounds to.
\<close>

theorem set_then_get:
  "(fsub t3 t1 \<le> real_of_int (ttl qc) \<longrightarrow>
      cache_get md5 fsub (cache_set md5 qc sql d schema t1 t2) sql schema t3 t4 =
        (Some d,
         (cache_set md5 qc sql d schema t1 t2)
           \<lparr>access_times := AList.update (generate_key md5 sql schema) t4
              (access_times (cache_set md5 qc sql d schema t1 t2))\<rparr>) \<and>
      map_of (access_times
          (snd (cache_get md5 fsub (cache_set md5 qc sql d schema t1 t2) sql schema t3 t4)))
        (generate_key md5 sql schema) = Some t4 \<and>
      map_of (cache
          (snd (cache_get md5 fsub (cache_set md5 qc sql d schema t1 t2) sql schema t3 t4)))
        (generate_key md5 sql schema) =
        Some \<lparr>entry_data = d, entry_timestamp = t1, entry_sql = sql, entry_schema = schema\<rparr>) \<and>
   (fsub t3 t1 > real_of_int (ttl qc) \<longrightarrow>
      cache_get md5 fsub (cache_set md5 qc sql d schema t1 t2) sql schema t3 t4 =
        (None, remove (cache_set md5 qc sql d schema t1 t2) (generate_key md5 sql schema)) \<and>
      map_of (cache
          (snd (cache_get md5 fsub (cache_set md5 qc sql d schema t1 t2) sql schema t3 t4)))
        (generate_key md5 sql schema) = None \<and>
      map_of (access_times
          (snd (cache_get md5 fsub (cache_set md5 qc sql d schema t1 t2) sql schema t3 t4)))
        (generate_key md5 sql schema) = None)"
proof -
  have m: "map_of (cache (cache_set md5 qc sql d schema t1 t2)) (generate_key md5 sql schema) =
      Some \<lparr>entry_data = d, entry_timestamp = t1, entry_sql = sql, entry_schema = schema\<rparr>"
    by (simp add: cache_set_def Let_def update_conv')
  show ?thesis
    unfolding get_after_set [OF refl]
    by (simp add: m update_conv' remove_def delete_conv')
qed

text \<open>
  The readings 0, 300 and 301 are integers, on which the subtraction of double precision
  is exact.
\<close>

theorem set_then_get_witness:
  "(300::real) - 0 \<le> real_of_int (ttl (QueryCache_init 100 300 :: (string \<times> nat) list list QueryCache)) \<and>
   fst (cache_get id (-) (cache_set id (QueryCache_init 100 300) ''SELECT 1'' [[(''x'', Suc 0)]] None 0 0)
     ''SELECT 1'' None 300 300) = Some [[(''x'', Suc 0)]] \<and>
   (301::real) - 0 > real_of_int (ttl (QueryCache_init 100 300 :: (string \<times> nat) list list QueryCache)) \<and>
   cache_get id (-) (cache_set id (QueryCache_init 100 300) ''SELECT 1'' [[(''x'', Suc 0)]] None 0 0)
     ''SELECT 1'' None 301 301 = (None, QueryCache_init 100 300)"
proof -
  let ?q0 = "QueryCache_init 100 300 :: (string \<times> nat) list list QueryCache"
  have h1: "(300::real) - 0 \<le> real_of_int (ttl ?q0)" by (simp add: QueryCache_init_def)
  have h2: "(301::real) - 0 > real_of_int (ttl ?q0)" by (simp add: QueryCache_init_def)
  have r: "remove (cache_set id ?q0 ''SELECT 1'' [[(''x'', Suc 0)]] None 0 0)
      (generate_key id ''SELECT 1'' None) = ?q0"
    by (simp add: cache_eval)
  show ?thesis
    using h1 h2 r
      set_then_get [of "(-)" 300 0 ?q0 id "''SELECT 1''" "[[(''x'', Suc 0)]]" None 0 300]
      set_then_get [of "(-)" 301 0 ?q0 id "''SELECT 1''" "[[(''x'', Suc 0)]]" None 0 301]
    by simp
qed

subsection \<open>Cache keys\<close>

text \<open>
  Claim C10. The cache key of every statement and namespace is the md5 digest of the
  statement, an underscore and the namespace (nothing for an absent or empty namespace),
  so it depends on that concatenation only, and for a digest without collisions two keys
  are equal exactly when the concatenations are. The namespaces \<open>None\<close> and the empty
  string give the same concatenation for every statement, and so do the statement \<open>A_\<close>
  with the empty namespace and the statement \<open>A\<close> with the namespace \<open>_\<close>. Whenever the
  concatenations of two pairs coincide they address one entry: what \<open>set\<close> stores under
  one, \<open>get\<close> under the other returns, and a later \<open>set\<close> under one overwrites the
  payload of the other.
\<close>

theorem cache_key_collisions:
  "generate_key md5 sql schema = md5 (key_text sql schema) \<and>
   key_text sql None = key_text sql (Some []) \<and>
   key_text ''A_'' (Some []) = key_text ''A'' (Some ''_'') \<and>
   (inj md5 \<longrightarrow>
      (generate_key md5 sql schema = generate_key md5 sql' schema') =
      (key_text sql schema = key_text sql' schema')) \<and>
   (key_text sql' schema' = key_text sql schema \<longrightarrow>
      generate_key md5 sql' schema' = generate_key md5 sql schema \<and>
      (fsub t3 t1 \<le> real_of_int (ttl qc) \<longrightarrow>
         fst (cache_get md5 fsub (cache_set md5 qc sql d schema t1 t2) sql' schema' t3 t4)
           = Some d \<and>
         fst (cache_get md5 fsub
                (cache_set md5 (cache_set md5 qc sql' d0 schema' t0 t0') sql d schema t1 t2)
                sql' schema' t3 t4) = Some d))"
proof -
  have g: "\<And>s n. generate_key md5 s n = md5 (key_text s n)"
    by (simp add: generate_key_def key_text_def split: option.splits)
  have k1: "key_text sql None = key_text sql (Some [])"
    by (simp add: key_text_def)
  have k2: "key_text ''A_'' (Some []) = key_text ''A'' (Some ''_'')"
    by (simp add: key_text_def)
  have i: "inj md5 \<longrightarrow>
      (generate_key md5 sql schema = generate_key md5 sql' schema') =
      (key_text sql schema = key_text sql' schema')"
    unfolding g by (auto dest: injD)
  have c: "key_text sql' schema' = key_text sql schema \<longrightarrow>
      generate_key md5 sql' schema' = generate_key md5 sql schema \<and>
      (fsub t3 t1 \<le> real_of_int (ttl qc) \<longrightarrow>
         fst (cache_get md5 fsub (cache_set md5 qc sql d schema t1 t2) sql' schema' t3 t4)
           = Some d \<and>
         fst (cache_get md5 fsub
                (cache_set md5 (cache_set md5 qc sql' d0 schema' t0 t0') sql d schema t1 t2)
                sql' schema' t3 t4) = Some d)"
  proof
    assume e: "key_text sql' schema' = key_text sql schema"
    then have ge: "generate_key md5 sql' schema' = generate_key md5 sql schema"
      by (simp add: g)
    have t: "ttl (cache_set md5 qc sql' d0 schema' t0 t0') = ttl qc"
      by (simp add: cache_set_def Let_def evict_oldest_def remove_def split: option.splits)
    show "generate_key md5 sql' schema' = generate_key md5 sql schema \<and>
      (fsub t3 t1 \<le> real_of_int (ttl qc) \<longrightarrow>
         fst (cache_get md5 fsub (cache_set md5 qc sql d schema t1 t2) sql' schema' t3 t4)
           = Some d \<and>
         fst (cache_get md5 fsub
                (cache_set md5 (cache_set md5 qc sql' d0 schema' t0 t0') sql d schema t1 t2)
                sql' schema' t3 t4) = Some d)"
      using ge by (simp add: get_after_set [OF ge] t)
  qed
  show ?thesis using g k1 k2 i c by blast
qed

text \<open>
  The identity serves as a digest without collisions; the readings are integers, on which
  the subtraction of double precision is exact.
\<close>

theorem cache_key_collisions_witness:
  "inj (id :: string \<Rightarrow> string) \<and>
   generate_key id ''SELECT 1'' (Some ''SYSDBA'') = ''SELECT 1_SYSDBA'' \<and>
   generate_key id ''A'' None \<noteq> generate_key id ''B'' None \<and>
   key_text ''A'' (Some ''_'') = key_text ''A_'' (Some []) \<and>
   (10::real) - 0 \<le> real_of_int (ttl (QueryCache_init 100 300 :: nat list QueryCache)) \<and>
   fst (cache_get id (-) (cache_set id (QueryCache_init 100 300) ''A_'' [Suc 0] (Some []) 0 0)
          ''A'' (Some ''_'') 10 10) = Some [Suc 0] \<and>
   fst (cache_get id (-)
          (cache_set id (cache_set id (QueryCache_init 100 300) ''A'' [0] (Some ''_'') 0 0)
             ''A_'' [Suc 0] (Some []) 0 0)
          ''A'' (Some ''_'') 10 10) = Some [Suc 0]"
proof -
  let ?q0 = "QueryCache_init 100 300 :: nat list QueryCache"
  have h: "(10::real) - 0 \<le> real_of_int (ttl ?q0)" by (simp add: QueryCache_init_def)
  have e: "key_text ''A'' (Some ''_'') = key_text ''A_'' (Some [])" by (simp add: key_text_def)
  have n: "key_text ''A'' None \<noteq> key_text ''B'' None" by (simp add: key_text_def)
  have j: "inj (id :: string \<Rightarrow> string)" by simp
  have t: "id (key_text ''SELECT 1'' (Some ''SYSDBA'')) = ''SELECT 1_SYSDBA''"
    by (simp add: key_text_def)
  note T1 = cache_key_collisions [of id "''A_''" "Some []" "''A''" "Some ''_''" "(-)" 10 0 ?q0
      "[Suc 0]" 0 10 "[0]" 0 0]
  note T2 = cache_key_collisions [of id "''A''" None "''B''" None "(-)" 10 0 ?q0
      "[Suc 0]" 0 10 "[0]" 0 0]
  note T3 = cache_key_collisions [of id "''SELECT 1''" "Some ''SYSDBA''" "''A''" None "(-)" 10 0 ?q0
      "[Suc 0]" 0 10 "[0]" 0 0]
  have p1: "generate_key id ''SELECT 1'' (Some ''SYSDBA'') = ''SELECT 1_SYSDBA''"
    using T3 t by simp
  have p2: "generate_key id ''A'' None \<noteq> generate_key id ''B'' None"
    using T2 j n by blast
  have p3: "fst (cache_get id (-) (cache_set id ?q0 ''A_'' [Suc 0] (Some []) 0 0)
          ''A'' (Some ''_'') 10 10) = Some [Suc 0]"
    using T1 e h by blast
  have p4: "fst (cache_get id (-)
          (cache_set id (cache_set id ?q0 ''A'' [0] (Some ''_'') 0 0)
             ''A_'' [Suc 0] (Some []) 0 0)
          ''A'' (Some ''_'') 10 10) = Some [Suc 0]"
    using T1 e h by blast
  show ?thesis
    apply (intro conjI)
          apply (rule j)
         apply (rule p1)
        apply (rule p2)
       apply (rule e)
      apply (rule h)
     apply (rule p3)
    apply (rule p4)
    done
qed

subsection \<open>The returned payload\<close>

text \<open>
  Claim C9, amended. On a cache hit \<open>get\<close> returns the stored payload object itself, the
  reference that \<open>set\<close> was given and that the entry keeps; it makes no copy. A caller
  that appends to the returned list therefore changes the rows of the cached entry.
\<close>

theorem get_returns_stored_object:
  "fsub t3 t1 \<le> real_of_int (ttl qc) \<longrightarrow>
     fst (cache_get md5 fsub (cache_set md5 qc sql a schema t1 t2) sql schema t3 t4) = Some a \<and>
     map_of (cache (snd (cache_get md5 fsub (cache_set md5 qc sql a schema t1 t2) sql schema t3 t4)))
       (generate_key md5 sql schema) =
       Some \<lparr>entry_data = a, entry_timestamp = t1, entry_sql = sql, entry_schema = schema\<rparr> \<and>
     (h a = Some rows \<longrightarrow>
        cached_rows h
          (snd (cache_get md5 fsub (cache_set md5 qc sql a schema t1 t2) sql schema t3 t4))
          (generate_key md5 sql schema) = Some rows \<and>
        cached_rows (list_append h a x)
          (snd (cache_get md5 fsub (cache_set md5 qc sql a schema t1 t2) sql schema t3 t4))
          (generate_key md5 sql schema) = Some (rows @ [x]))"
proof -
  have m: "map_of (cache (cache_set md5 qc sql a schema t1 t2)) (generate_key md5 sql schema) =
      Some \<lparr>entry_data = a, entry_timestamp = t1, entry_sql = sql, entry_schema = schema\<rparr>"
    by (simp add: cache_set_def Let_def update_conv')
  show ?thesis
    unfolding get_after_set [OF refl]
    by (simp add: m cached_rows_def list_append_def)
qed

theorem get_returns_stored_object_witness:
  "(1::real) - 0 \<le> real_of_int (ttl (QueryCache_init 100 300 :: ref QueryCache)) \<and>
   [0 \<mapsto> [Suc 0]] (0::ref) = Some [Suc 0] \<and>
   fst (cache_get id (-) (cache_set id (QueryCache_init 100 300) ''SELECT 1'' (0::ref) None 0 0)
          ''SELECT 1'' None 1 1) = Some 0 \<and>
   cached_rows (list_append [0 \<mapsto> [Suc 0]] 0 2)
     (snd (cache_get id (-) (cache_set id (QueryCache_init 100 300) ''SELECT 1'' (0::ref) None 0 0)
          ''SELECT 1'' None 1 1))
     (generate_key id ''SELECT 1'' None) = Some [Suc 0, 2]"
proof -
  let ?q0 = "QueryCache_init 100 300 :: ref QueryCache"
  have h: "(1::real) - 0 \<le> real_of_int (ttl ?q0)" by (simp add: QueryCache_init_def)
  have s: "[0 \<mapsto> [Suc 0]] (0::ref) = Some [Suc 0]" by simp
  show ?thesis
    using h s
      get_returns_stored_object [of "(-)" 1 0 ?q0 id "''SELECT 1''" 0 None 0 1
        "[0 \<mapsto> [Suc 0]]" "[Suc 0]" 2]
    by simp
qed

text \<open>
  The claim as stated fails: the reference returned is the one the entry holds, and after
  the caller appends a row through it the cached entry has that row too.
\<close>

theorem returned_payload_counterexample:
  "fst (cache_get id (-) (cache_set id (QueryCache_init 100 300) ''SELECT 1'' (0::ref) None 0 0)
          ''SELECT 1'' None 1 1) = Some 0 \<and>
   map (entry_data \<circ> snd)
     (cache (snd (cache_get id (-)
        (cache_set id (QueryCache_init 100 300) ''SELECT 1'' (0::ref) None 0 0)
        ''SELECT 1'' None 1 1))) = [0] \<and>
   cached_rows [0 \<mapsto> [Suc 0]]
     (snd (cache_get id (-) (cache_set id (QueryCache_init 100 300) ''SELECT 1'' (0::ref) None 0 0)
          ''SELECT 1'' None 1 1))
     ''SELECT 1_'' = Some [Suc 0] \<and>
   cached_rows (list_append [0 \<mapsto> [Suc 0]] 0 (2::nat))
     (snd (cache_get id (-) (cache_set id (QueryCache_init 100 300) ''SELECT 1'' (0::ref) None 0 0)
          ''SELECT 1'' None 1 1))
     ''SELECT 1_'' = Some [Suc 0, 2]"
  by (simp add: cache_eval cached_rows_def list_append_def)

subsection \<open>execute\_query\<close>

lemma strip_no_leading_space: "dropWhile isspace (strip s) = strip s"
proof -
  define u where "u = dropWhile isspace s"
  define v where "v = dropWhile isspace (rev u)"
  have sv: "strip s = rev v" by (simp add: strip_def u_def v_def)
  have "rev v = [] \<or> \<not> isspace (hd (rev v))"
  proof (cases "v = []")
    case True
    then show ?thesis by simp
  next
    case False
    have ru: "rev u = takeWhile isspace (rev u) @ v" by (simp add: v_def)
    then have "last (rev u) = last v" using False by (metis last_appendR)
    moreover have "u \<noteq> []" using False v_def by auto
    ultimately have "last v = hd u" by (simp add: last_rev)
    moreover have "\<not> isspace (hd u)" using \<open>u \<noteq> []\<close> unfolding u_def by (rule hd_dropWhile)
    ultimately show ?thesis using False by (simp add: hd_rev)
  qed
  then show ?thesis unfolding sv by (simp add: dropWhile_eq_self_iff)
qed

lemma startswith_first_keyword: "startswith (strip s) (extract_first_keyword (strip s))"
proof -
  have "strip s = takeWhile (\<lambda>c. \<not> isspace c) (strip s) @ dropWhile (\<lambda>c. \<not> isspace c) (strip s)"
    by simp
  then show ?thesis
    unfolding extract_first_keyword_eq leading_keyword_def strip_no_leading_space startswith_iff
    by blast
qed

lemma keyword_is_query:
  "extract_first_keyword (strip (upper sql)) \<in> set query_prefixes \<Longrightarrow> is_query sql"
  unfolding is_query_def list_ex_iff using startswith_first_keyword by blast

lemma validate_full_access_mode:
  "\<not> validate_sql sql m \<Longrightarrow> m \<noteq> FULL_ACCESS"
  by (auto simp: validate_sql_def)

lemma disjoint_keyword_sets: "Write_set \<inter> Dangerous_set = {}"
  by (auto simp: Write_set_def Dangerous_set_def lit_def)

lemma get_error_message_readonly:
  "get_error_message sql READONLY =
     (if leading_keyword (normalized sql) \<in> Write_set
        then Readonly_write_forbidden (leading_keyword (normalized sql))
      else if leading_keyword (normalized sql) \<in> Dangerous_set
        then Readonly_dangerous_forbidden (leading_keyword (normalized sql))
        else Readonly_unsupported (leading_keyword (normalized sql)))"
  by (simp add: get_error_message_def Let_def extract_first_keyword_eq normalized_def
      WRITE_OPERATIONS_def DANGEROUS_OPERATIONS_def Write_set_def Dangerous_set_def)

lemma get_error_message_limited_write:
  "get_error_message sql LIMITED_WRITE =
     (if leading_keyword (normalized sql) \<in> Dangerous_set
        then Limited_write_dangerous_forbidden (leading_keyword (normalized sql))
        else Limited_write_unsupported (leading_keyword (normalized sql)))"
  by (simp add: get_error_message_def Let_def extract_first_keyword_eq normalized_def
      DANGEROUS_OPERATIONS_def Dangerous_set_def)

text \<open>
  Claim C8, amended. For every statement that the validator rejects under the configured
  mode, \<open>execute_query\<close> raises a \<open>ValueError\<close> carrying the validator's message without
  any cache or database access: no event is recorded and the cache is returned as it was.
  The message names the mode and the leading keyword of the statement, under the category
  of that keyword alone: in read-only mode a write operation forbidden for a Write
  keyword, a dangerous operation forbidden for a Dangerous keyword, an unsupported
  operation for any other keyword; in limited-write mode a dangerous operation forbidden
  for a Dangerous keyword, an unsupported operation for any other.
\<close>

theorem rejected_statement_raises:
  "\<not> validate_sql sql (cfg_security_mode cfg) \<Longrightarrow>
   execute_query cfg md5 fsub db t_get t_set qc sql use_cache =
     (Inl (ValueError (get_error_message sql (cfg_security_mode cfg))), qc, []) \<and>
   message_mode (get_error_message sql (cfg_security_mode cfg)) = Some (cfg_security_mode cfg) \<and>
   message_keyword (get_error_message sql (cfg_security_mode cfg)) =
     Some (leading_keyword (normalized sql)) \<and>
   (cfg_security_mode cfg = READONLY \<longrightarrow>
      (leading_keyword (normalized sql) \<in> Write_set \<longrightarrow>
         get_error_message sql (cfg_security_mode cfg) =
           Readonly_write_forbidden (leading_keyword (normalized sql))) \<and>
      (leading_keyword (normalized sql) \<in> Dangerous_set \<longrightarrow>
         get_error_message sql (cfg_security_mode cfg) =
           Readonly_dangerous_forbidden (leading_keyword (normalized sql))) \<and>
      (leading_keyword (normalized sql) \<notin> Write_set \<union> Dangerous_set \<longrightarrow>
         get_error_message sql (cfg_security_mode cfg) =
           Readonly_unsupported (leading_keyword (normalized sql)))) \<and>
   (cfg_security_mode cfg = LIMITED_WRITE \<longrightarrow>
      (leading_keyword (normalized sql) \<in> Dangerous_set \<longrightarrow>
         get_error_message sql (cfg_security_mode cfg) =
           Limited_write_dangerous_forbidden (leading_keyword (normalized sql))) \<and>
      (leading_keyword (normalized sql) \<notin> Dangerous_set \<longrightarrow>
         get_error_message sql (cfg_security_mode cfg) =
           Limited_write_unsupported (leading_keyword (normalized sql))))"
proof -
  assume r: "\<not> validate_sql sql (cfg_security_mode cfg)"
  then have nf: "cfg_security_mode cfg \<noteq> FULL_ACCESS" by (rule validate_full_access_mode)
  have e: "execute_query cfg md5 fsub db t_get t_set qc sql use_cache =
     (Inl (ValueError (get_error_message sql (cfg_security_mode cfg))), qc, [])"
    using r by (simp add: execute_query_def)
  have m: "message_mode (get_error_message sql (cfg_security_mode cfg)) =
      Some (cfg_security_mode cfg)"
    using nf by (cases "cfg_security_mode cfg")
      (simp_all add: get_error_message_readonly get_error_message_limited_write)
  have k: "message_keyword (get_error_message sql (cfg_security_mode cfg)) =
     Some (leading_keyword (normalized sql))"
    using nf by (cases "cfg_security_mode cfg")
      (simp_all add: get_error_message_readonly get_error_message_limited_write)
  have ro: "cfg_security_mode cfg = READONLY \<longrightarrow>
      (leading_keyword (normalized sql) \<in> Write_set \<longrightarrow>
         get_error_message sql (cfg_security_mode cfg) =
           Readonly_write_forbidden (leading_keyword (normalized sql))) \<and>
      (leading_keyword (normalized sql) \<in> Dangerous_set \<longrightarrow>
         get_error_message sql (cfg_security_mode cfg) =
           Readonly_dangerous_forbidden (leading_keyword (normalized sql))) \<and>
      (leading_keyword (normalized sql) \<notin> Write_set \<union> Dangerous_set \<longrightarrow>
         get_error_message sql (cfg_security_mode cfg) =
           Readonly_unsupported (leading_keyword (normalized sql)))"
    using disjoint_keyword_sets by (auto simp: get_error_message_readonly)
  have lw: "cfg_security_mode cfg = LIMITED_WRITE \<longrightarrow>
      (leading_keyword (normalized sql) \<in> Dangerous_set \<longrightarrow>
         get_error_message sql (cfg_security_mode cfg) =
           Limited_write_dangerous_forbidden (leading_keyword (normalized sql))) \<and>
      (leading_keyword (normalized sql) \<notin> Dangerous_set \<longrightarrow>
         get_error_message sql (cfg_security_mode cfg) =
           Limited_write_unsupported (leading_keyword (normalized sql)))"
    by (simp add: get_error_message_limited_write)
  show ?thesis using e m k ro lw by blast
qed

theorem rejected_statement_raises_witness:
  "\<not> validate_sql ''drop table t''
      (cfg_security_mode \<lparr>cfg_security_mode = READONLY, cfg_max_result_rows = 1000\<rparr>) \<and>
   leading_keyword (normalized ''drop table t'') = lit ''DROP'' \<and>
   lit ''DROP'' \<in> Dangerous_set \<and>
   execute_query \<lparr>cfg_security_mode = READONLY, cfg_max_result_rows = 1000\<rparr> id (-)
     (DbOk [[(''x'', Suc 0)]] 1) (5, 5) (6, 6)
     (cache_set id (QueryCache_init 100 300) ''drop table t'' [] None 0 0)
     ''drop table t'' True =
     (Inl (ValueError (Readonly_dangerous_forbidden (lit ''DROP''))),
      cache_set id (QueryCache_init 100 300) ''drop table t'' [] None 0 0, []) \<and>
   \<not> validate_sql ''INSERT INTO T VALUES (1)''
      (cfg_security_mode \<lparr>cfg_security_mode = READONLY, cfg_max_result_rows = 1000\<rparr>) \<and>
   get_error_message ''INSERT INTO T VALUES (1)'' READONLY =
     Readonly_write_forbidden (lit ''INSERT'') \<and>
   \<not> validate_sql ''MERGE INTO T''
      (cfg_security_mode \<lparr>cfg_security_mode = LIMITED_WRITE, cfg_max_result_rows = 1000\<rparr>) \<and>
   get_error_message ''MERGE INTO T'' LIMITED_WRITE = Limited_write_unsupported (lit ''MERGE'')"
proof -
  let ?ro = "\<lparr>cfg_security_mode = READONLY, cfg_max_result_rows = 1000\<rparr>"
  let ?lw = "\<lparr>cfg_security_mode = LIMITED_WRITE, cfg_max_result_rows = 1000\<rparr>"
  let ?qc = "cache_set id (QueryCache_init 100 300) ''drop table t'' [] None 0 0
    :: (string \<times> nat) list list QueryCache"
  have "\<not> validate_sql ''drop table t'' READONLY" by code_simp
  then have h1: "\<not> validate_sql ''drop table t'' (cfg_security_mode ?ro)" by simp
  have k1: "leading_keyword (normalized ''drop table t'') = lit ''DROP''" by code_simp
  have d1: "lit ''DROP'' \<in> Dangerous_set" by (simp add: Dangerous_set_def)
  have "\<not> validate_sql ''INSERT INTO T VALUES (1)'' READONLY" by code_simp
  then have h2: "\<not> validate_sql ''INSERT INTO T VALUES (1)'' (cfg_security_mode ?ro)" by simp
  have k2: "leading_keyword (normalized ''INSERT INTO T VALUES (1)'') = lit ''INSERT''"
    by code_simp
  have d2: "lit ''INSERT'' \<in> Write_set" by (simp add: Write_set_def)
  have "\<not> validate_sql ''MERGE INTO T'' LIMITED_WRITE" by code_simp
  then have h3: "\<not> validate_sql ''MERGE INTO T'' (cfg_security_mode ?lw)" by simp
  have k3: "leading_keyword (normalized ''MERGE INTO T'') = lit ''MERGE''" by code_simp
  have d3: "lit ''MERGE'' \<notin> Dangerous_set" by (simp add: Dangerous_set_def lit_def)
  note T1 = rejected_statement_raises [OF h1, of id "(-)" "DbOk [[(''x'', Suc 0)]] 1" "(5, 5)"
      "(6, 6)" ?qc True]
  note T2 = rejected_statement_raises [OF h2, of id "(-)" "DbOk [[(''x'', Suc 0)]] 1" "(5, 5)"
      "(6, 6)" ?qc True]
  note T3 = rejected_statement_raises [OF h3, of id "(-)" "DbOk [[(''x'', Suc 0)]] 1" "(5, 5)"
      "(6, 6)" ?qc True]
  have e1: "execute_query ?ro id (-) (DbOk [[(''x'', Suc 0)]] 1) (5, 5) (6, 6) ?qc
     ''drop table t'' True =
     (Inl (ValueError (Readonly_dangerous_forbidden (lit ''DROP''))), ?qc, [])"
    using T1 d1 by (simp add: k1)
  have e2: "get_error_message ''INSERT INTO T VALUES (1)'' READONLY =
     Readonly_write_forbidden (lit ''INSERT'')"
    using T2 d2 by (simp add: k2)
  have e3: "get_error_message ''MERGE INTO T'' LIMITED_WRITE =
     Limited_write_unsupported (lit ''MERGE'')"
    using T3 d3 by (simp add: k3)
  show ?thesis
    apply (intro conjI)
           apply (rule h1)
          apply (rule k1)
         apply (rule d1)
        apply (rule e1)
       apply (rule h2)
      apply (rule e2)
     apply (rule h3)
    apply (rule e3)
    done
qed

text \<open>
  The claim as stated fails where the offence is not the leading keyword. The statement
  \<open>SELECT 1; DROP TABLE T\<close> is rejected in read-only mode for its \<open>DROP TABLE\<close> clause;
  the message names neither \<open>DROP\<close> nor its category but the leading keyword \<open>SELECT\<close>, a
  Read keyword, as an unsupported operation.
\<close>

theorem rejected_message_counterexample:
  "\<not> validate_sql ''SELECT 1; DROP TABLE T'' READONLY \<and>
   execute_query \<lparr>cfg_security_mode = READONLY, cfg_max_result_rows = 1000\<rparr> id (-)
     (DbOk [[(''x'', Suc 0)]] 1) (5, 5) (6, 6) (QueryCache_init 100 300)
     ''SELECT 1; DROP TABLE T'' True =
     (Inl (ValueError (Readonly_unsupported (lit ''SELECT''))), QueryCache_init 100 300, []) \<and>
   lit ''SELECT'' \<in> Read_set \<and>
   lit ''SELECT'' \<notin> Write_set \<union> Dangerous_set \<and>
   clause_occurs (lit ''DROP'') (lit ''TABLE'') (normalized ''SELECT 1; DROP TABLE T'') \<and>
   lit ''DROP'' \<in> Dangerous_set"
proof -
  have v: "\<not> validate_sql ''SELECT 1; DROP TABLE T'' READONLY" by code_simp
  have g: "get_error_message ''SELECT 1; DROP TABLE T'' READONLY =
      Readonly_unsupported (lit ''SELECT'')" by code_simp
  have e: "execute_query \<lparr>cfg_security_mode = READONLY, cfg_max_result_rows = 1000\<rparr> id (-)
     (DbOk [[(''x'', Suc 0)]] 1) (5, 5) (6, 6) (QueryCache_init 100 300)
     ''SELECT 1; DROP TABLE T'' True =
     (Inl (ValueError (Readonly_unsupported (lit ''SELECT''))), QueryCache_init 100 300, [])"
    by (simp add: execute_query_def v g)
  have r: "lit ''SELECT'' \<in> Read_set" by (simp add: Read_set_def)
  have n: "lit ''SELECT'' \<notin> Write_set \<union> Dangerous_set"
    by (simp add: Write_set_def Dangerous_set_def lit_def)
  have s: "re_search [Boundary, Lit (lit ''DROP''), Plus isspace, Lit (lit ''TABLE''), Boundary]
      (normalized ''SELECT 1; DROP TABLE T'')" by code_simp
  have q: "re_search [Boundary, Lit (lit ''DROP''), Plus isspace, Lit (lit ''TABLE''), Boundary]
      (normalized ''SELECT 1; DROP TABLE T'') =
      clause_occurs (lit ''DROP'') (lit ''TABLE'') (normalized ''SELECT 1; DROP TABLE T'')"
    by (rule re_search_clause) code_simp+
  have c: "clause_occurs (lit ''DROP'') (lit ''TABLE'') (normalized ''SELECT 1; DROP TABLE T'')"
    using s q by blast
  have d: "lit ''DROP'' \<in> Dangerous_set" by (simp add: Dangerous_set_def)
  show ?thesis
    apply (intro conjI)
         apply (rule v)
        apply (rule e)
       apply (rule r)
      apply (rule n)
     apply (rule c)
    apply (rule d)
    done
qed

text \<open>
  Claim C7, amended. For a validated statement and caching enabled, \<open>execute_query\<close>
  reaches the cache exactly when the upper-cased, trimmed text starts with one of the five
  prefixes \<open>SELECT\<close>, \<open>WITH\<close>, \<open>SHOW\<close>, \<open>DESCRIBE\<close>, \<open>EXPLAIN\<close>; every statement whose
  leading keyword is one of these five does. Then \<open>get\<close> comes first: a hit is returned
  without reaching the database; after a miss the database is reached and a successful
  read is written back with \<open>set\<close>, a failed one is not. A statement whose text starts
  with none of the five prefixes, \<open>ANALYZE\<close> statements included, reaches the database
  only and leaves the cache as it was.
\<close>

theorem query_cache_gate:
  "validate_sql sql (cfg_security_mode cfg) \<Longrightarrow>
   (extract_first_keyword (strip (upper sql)) \<in> set query_prefixes \<longrightarrow> is_query sql) \<and>
   (is_query sql \<longrightarrow>
      (case cache_get md5 fsub qc sql None (fst t_get) (snd t_get) of
         (Some rows, qc1) \<Rightarrow>
           execute_query cfg md5 fsub db t_get t_set qc sql True = (Inr (Rows rows), qc1, [CacheGet])
       | (None, qc1) \<Rightarrow>
           (case db of
              DbError \<Rightarrow>
                execute_query cfg md5 fsub db t_get t_set qc sql True =
                  (Inl DatabaseError, qc1, [CacheGet, DbExecute])
            | DbOk fetched rowcount \<Rightarrow>
                execute_query cfg md5 fsub db t_get t_set qc sql True =
                  (Inr (Rows (truncate_rows (cfg_max_result_rows cfg) fetched)),
                   cache_set md5 qc1 sql (truncate_rows (cfg_max_result_rows cfg) fetched) None
                     (fst t_set) (snd t_set),
                   [CacheGet, DbExecute, CacheSet])))) \<and>
   (\<not> is_query sql \<longrightarrow>
      fst (snd (execute_query cfg md5 fsub db t_get t_set qc sql True)) = qc \<and>
      snd (snd (execute_query cfg md5 fsub db t_get t_set qc sql True)) = [DbExecute])"
proof (intro conjI impI)
  assume "extract_first_keyword (strip (upper sql)) \<in> set query_prefixes"
  then show "is_query sql" by (rule keyword_is_query)
next
  assume v: "validate_sql sql (cfg_security_mode cfg)" and q: "is_query sql"
  show "case cache_get md5 fsub qc sql None (fst t_get) (snd t_get) of
         (Some rows, qc1) \<Rightarrow>
           execute_query cfg md5 fsub db t_get t_set qc sql True = (Inr (Rows rows), qc1, [CacheGet])
       | (None, qc1) \<Rightarrow>
           (case db of
              DbError \<Rightarrow>
                execute_query cfg md5 fsub db t_get t_set qc sql True =
                  (Inl DatabaseError, qc1, [CacheGet, DbExecute])
            | DbOk fetched rowcount \<Rightarrow>
                execute_query cfg md5 fsub db t_get t_set qc sql True =
                  (Inr (Rows (truncate_rows (cfg_max_result_rows cfg) fetched)),
                   cache_set md5 qc1 sql (truncate_rows (cfg_max_result_rows cfg) fetched) None
                     (fst t_set) (snd t_set),
                   [CacheGet, DbExecute, CacheSet]))"
    using v q
    by (simp add: execute_query_def Let_def split: prod.splits option.splits db_outcome.splits)
next
  assume v: "validate_sql sql (cfg_security_mode cfg)" and q: "\<not> is_query sql"
  show "fst (snd (execute_query cfg md5 fsub db t_get t_set qc sql True)) = qc"
    using v q by (simp add: execute_query_def split: db_outcome.splits)
  show "snd (snd (execute_query cfg md5 fsub db t_get t_set qc sql True)) = [DbExecute]"
    using v q by (simp add: execute_query_def split: db_outcome.splits)
qed


theorem query_cache_gate_witness:
  "validate_sql ''select 1''
     (cfg_security_mode \<lparr>cfg_security_mode = READONLY, cfg_max_result_rows = 1000\<rparr>) \<and>
   extract_first_keyword (strip (upper ''select 1'')) \<in> set query_prefixes \<and>
   is_query ''select 1'' \<and>
   execute_query \<lparr>cfg_security_mode = READONLY, cfg_max_result_rows = 1000\<rparr> id (-)
     (DbOk [[(''x'', Suc 0)]] 1) (5, 5) (6, 6) (QueryCache_init 100 300) ''select 1'' True =
     (Inr (Rows [[(''x'', Suc 0)]]),
      cache_set id (QueryCache_init 100 300) ''select 1'' [[(''x'', Suc 0)]] None 6 6,
      [CacheGet, DbExecute, CacheSet]) \<and>
   validate_sql ''INSERT INTO T VALUES (1)''
     (cfg_security_mode \<lparr>cfg_security_mode = LIMITED_WRITE, cfg_max_result_rows = 1000\<rparr>) \<and>
   \<not> is_query ''INSERT INTO T VALUES (1)'' \<and>
   snd (execute_query \<lparr>cfg_security_mode = LIMITED_WRITE, cfg_max_result_rows = 1000\<rparr> id (-)
     (DbOk [] 1 :: (string \<times> nat) list db_outcome) (5, 5) (6, 6) (QueryCache_init 100 300)
     ''INSERT INTO T VALUES (1)'' True) = (QueryCache_init 100 300, [DbExecute])"
proof -
  let ?ro = "\<lparr>cfg_security_mode = READONLY, cfg_max_result_rows = 1000\<rparr>"
  let ?lw = "\<lparr>cfg_security_mode = LIMITED_WRITE, cfg_max_result_rows = 1000\<rparr>"
  let ?q0 = "QueryCache_init 100 300 :: (string \<times> nat) list list QueryCache"
  have "validate_sql ''select 1'' READONLY" by code_simp
  then have v1: "validate_sql ''select 1'' (cfg_security_mode ?ro)" by simp
  have k1: "extract_first_keyword (strip (upper ''select 1'')) \<in> set query_prefixes"
    by code_simp
  have g1: "cache_get id (-) ?q0 ''select 1'' None 5 5 = (None, ?q0)"
    by (simp add: cache_get_def QueryCache_init_def)
  have "validate_sql ''INSERT INTO T VALUES (1)'' LIMITED_WRITE" by code_simp
  then have v2: "validate_sql ''INSERT INTO T VALUES (1)'' (cfg_security_mode ?lw)" by simp
  have q2: "\<not> is_query ''INSERT INTO T VALUES (1)''" by code_simp
  note T1 = query_cache_gate [OF v1, of id "(-)" "DbOk [[(''x'', Suc 0)]] 1" "(5, 5)" "(6, 6)"
      ?q0]
  note T2 = query_cache_gate [OF v2, of id "(-)" "DbOk [] 1" "(5, 5)" "(6, 6)" ?q0]
  have q1: "is_query ''select 1''" using T1 k1 by blast
  have e1: "execute_query ?ro id (-) (DbOk [[(''x'', Suc 0)]] 1) (5, 5) (6, 6) ?q0 ''select 1'' True =
     (Inr (Rows [[(''x'', Suc 0)]]),
      cache_set id ?q0 ''select 1'' [[(''x'', Suc 0)]] None 6 6,
      [CacheGet, DbExecute, CacheSet])"
    using T1 q1 by (simp add: g1 truncate_rows_def)
  have e2: "snd (execute_query ?lw id (-) (DbOk [] 1) (5, 5) (6, 6) ?q0
     ''INSERT INTO T VALUES (1)'' True) = (?q0, [DbExecute])"
    using T2 q2 by (simp add: prod_eq_iff)
  show ?thesis
    apply (intro conjI)
          apply (rule v1)
         apply (rule k1)
        apply (rule q1)
       apply (rule e1)
      apply (rule v2)
     apply (rule q2)
    apply (rule e2)
    done
qed

text \<open>
  The claim as stated fails twice. A validated \<open>ANALYZE\<close> statement has a Read keyword but
  is not served from the cache, even when the cache holds an entry for it, and its result
  is not stored. Under full access, \<open>SELECT* FROM T\<close> has the leading keyword \<open>SELECT*\<close>,
  which is in no keyword set, yet the cache is read and written.
\<close>

theorem query_cache_gate_counterexample:
  "validate_sql ''ANALYZE T'' READONLY \<and>
   extract_first_keyword (strip (upper ''ANALYZE T'')) \<in> Read_set \<and>
   execute_query \<lparr>cfg_security_mode = READONLY, cfg_max_result_rows = 1000\<rparr> id (-)
     (DbOk [] 0) (5, 5) (6, 6)
     (cache_set id (QueryCache_init 100 300) ''ANALYZE T'' [[(''x'', Suc 0)]] None 0 0)
     ''ANALYZE T'' True =
     (Inr (Affected_rows 0),
      cache_set id (QueryCache_init 100 300) ''ANALYZE T'' [[(''x'', Suc 0)]] None 0 0,
      [DbExecute]) \<and>
   validate_sql ''SELECT* FROM T'' FULL_ACCESS \<and>
   extract_first_keyword (strip (upper ''SELECT* FROM T'')) \<notin> Read_set \<and>
   snd (snd (execute_query \<lparr>cfg_security_mode = FULL_ACCESS, cfg_max_result_rows = 1000\<rparr> id (-)
     (DbOk [[(''x'', Suc 0)]] 1) (5, 5) (6, 6) (QueryCache_init 100 300)
     ''SELECT* FROM T'' True)) = [CacheGet, DbExecute, CacheSet]"
proof -
  have v1: "validate_sql ''ANALYZE T'' READONLY" by code_simp
  have k1: "extract_first_keyword (strip (upper ''ANALYZE T'')) \<in> Read_set" by code_simp
  have q1: "\<not> is_query ''ANALYZE T''" by code_simp
  have v2: "validate_sql ''SELECT* FROM T'' FULL_ACCESS" by code_simp
  have k2: "extract_first_keyword (strip (upper ''SELECT* FROM T'')) \<notin> Read_set" by code_simp
  have q2: "is_query ''SELECT* FROM T''" by code_simp
  have e1: "execute_query \<lparr>cfg_security_mode = READONLY, cfg_max_result_rows = 1000\<rparr> id (-)
     (DbOk [] 0) (5, 5) (6, 6)
     (cache_set id (QueryCache_init 100 300) ''ANALYZE T'' [[(''x'', Suc 0)]] None 0 0)
     ''ANALYZE T'' True =
     (Inr (Affected_rows 0),
      cache_set id (QueryCache_init 100 300) ''ANALYZE T'' [[(''x'', Suc 0)]] None 0 0,
      [DbExecute])"
    by (simp add: execute_query_def v1 q1)
  have e2: "snd (snd (execute_query
     \<lparr>cfg_security_mode = FULL_ACCESS, cfg_max_result_rows = 1000\<rparr> id (-)
     (DbOk [[(''x'', Suc 0)]] 1) (5, 5) (6, 6) (QueryCache_init 100 300)
     ''SELECT* FROM T'' True)) = [CacheGet, DbExecute, CacheSet]"
    by (simp add: execute_query_def v2 q2 cache_get_def QueryCache_init_def Let_def)
  show ?thesis
    apply (intro conjI)
         apply (rule v1)
        apply (rule k1)
       apply (rule e1)
      apply (rule v2)
     apply (rule k2)
    apply (rule e2)
    done
qed

end
